theory Spec2Isabelle
  imports Complex_Main "HOL-Library.Signed_Division" "HOL-Library.Multiset"
begin

unbundle bit_operations_syntax

section \<open>The cell list of HOOMD-blue (libhoomd/computes/CellList.cc)\<close>

text \<open>
  The development embeds \<^verbatim>\<open>CellList\<close> shallowly: the object is a record, every member
  function takes the record and returns the updated one, a thrown \<^verbatim>\<open>runtime_error\<close> is an
  error value returned together with the state the members are left in.

  Conventions of the embedding.
  \<^item> \<^verbatim>\<open>unsigned int\<close> is a natural number below \<open>2 ^ 32\<close>; every arithmetic result on it
    is reduced by \<open>uint\<close>. \<^verbatim>\<open>int\<close> is an integer; the cast \<^verbatim>\<open>int(u)\<close> is \<open>to_int\<close>.
  \<^item> \<^verbatim>\<open>Scalar\<close> and \<^verbatim>\<open>float\<close> are IEEE 754 binary32 (the single precision build). A Scalar
    that is only computed with (box bounds, widths, scale factors) is the real number it
    holds; every arithmetic operation rounds its exact result to the nearest binary32
    number, ties to even (\<open>rnd\<close>), and the literal \<^verbatim>\<open>1.1f\<close> is \<open>rnd (11 / 10)\<close>. A Scalar that
    is stored and copied (the particle arrays, the bucket slots) is its 32-bit pattern,
    which \<open>isnan\<close> tests and \<open>num\<close> decodes.
  \<^item> The finite range only: a result of magnitude \<open>2 ^ 128\<close> or more is an infinity in the
    source and is left unrounded here, a division by zero gives an infinity or NaN in the
    source and \<open>0\<close> here, and zero has no sign. The theorems that depend on such a value
    bound the operands.
  \<^item> \<^verbatim>\<open>assert\<close> is compiled out (\<^verbatim>\<open>NDEBUG\<close>); the asserted conditions reappear as
    hypotheses or conclusions of the theorems.
  \<^item> Profiling calls (\<^verbatim>\<open>m_prof\<close>) have no effect on the data and are left out.
\<close>

subsection \<open>Machine integers\<close>

definition uint :: "nat \<Rightarrow> nat" where
  \<comment> \<open>the value of an \<^verbatim>\<open>unsigned int\<close> expression: reduction modulo \<open>2 ^ 32\<close>\<close>
  "uint n = n mod 2 ^ 32"

definition UINT_MAX :: nat where
  "UINT_MAX = 2 ^ 32 - 1"

definition to_int :: "nat \<Rightarrow> int" where
  \<comment> \<open>\<^verbatim>\<open>int(u)\<close> for an \<^verbatim>\<open>unsigned int u\<close>: two's complement reinterpretation\<close>
  "to_int u = (if u < 2 ^ 31 then int u else int u - 2 ^ 32)"

definition int_to_uint :: "int \<Rightarrow> nat" where
  \<comment> \<open>conversion of an \<^verbatim>\<open>int\<close> to \<^verbatim>\<open>unsigned int\<close> (assignment, argument passing)\<close>
  "int_to_uint i = nat (i mod 2 ^ 32)"

definition trunc :: "real \<Rightarrow> int" where
  \<comment> \<open>a floating to integral conversion discards the fractional part\<close>
  "trunc r = (if 0 \<le> r then \<lfloor>r\<rfloor> else \<lceil>r\<rceil>)"

definition float_to_uint :: "real \<Rightarrow> nat" where
  \<comment> \<open>\<^verbatim>\<open>(unsigned int)(r)\<close>. C++ defines it only when the truncated value is representable;
      outside that range the model reduces modulo \<open>2 ^ 32\<close>, and no theorem relies on it.\<close>
  "float_to_uint r = int_to_uint (trunc r)"

definition float_to_int :: "real \<Rightarrow> int" where
  \<comment> \<open>\<^verbatim>\<open>int(r)\<close>, with the same proviso\<close>
  "float_to_int r = trunc r"

subsection \<open>Binary floating point\<close>

text \<open>
  The binary32 numbers are the reals \<open>m * 2 ^ e\<close> with \<open>\<bar>m\<bar> < 2 ^ 24\<close> and \<open>- 149 \<le> e\<close>, of
  magnitude below \<open>2 ^ 128\<close>. An operation of the source on Scalars is the exact operation
  followed by \<open>rnd\<close>.
\<close>

definition rne :: "real \<Rightarrow> int" where
  \<comment> \<open>the nearest integer, a tie going to the even neighbour\<close>
  "rne r =
     (let f = \<lfloor>r\<rfloor>
      in if r - of_int f < 1 / 2 then f
         else if 1 / 2 < r - of_int f then f + 1
         else if even f then f else f + 1)"

fun exponent_of :: "nat \<Rightarrow> real \<Rightarrow> int" where
  \<comment> \<open>the binary exponent \<open>e\<close> of a positive number, \<open>2 ^ e \<le> x < 2 ^ (e + 1)\<close>, found by
      halving or doubling at most \<open>n\<close> times\<close>
  "exponent_of 0 x = 0"
| "exponent_of (Suc n) x =
     (if 2 \<le> x then exponent_of n (x / 2) + 1
      else if x < 1 then exponent_of n (2 * x) - 1
      else 0)"

definition cexp :: "real \<Rightarrow> int" where
  \<comment> \<open>the exponent of the binary32 number format at \<open>x\<close>: not below \<open>- 126\<close>, where the
      subnormal numbers begin\<close>
  "cexp x = max (exponent_of 128 \<bar>x\<bar>) (- 126)"

definition quantum :: "real \<Rightarrow> real" where
  \<comment> \<open>the spacing of the binary32 numbers around \<open>x\<close>: 24 significant bits\<close>
  "quantum x = 2 powi (cexp x - 23)"

definition rnd :: "real \<Rightarrow> real" where
  \<comment> \<open>rounding to the nearest binary32 number\<close>
  "rnd x = (if 2 ^ 128 \<le> \<bar>x\<bar> then x else of_int (rne (x / quantum x)) * quantum x)"

definition fsub :: "real \<Rightarrow> real \<Rightarrow> real" where
  "fsub a b = rnd (a - b)"

definition fmul :: "real \<Rightarrow> real \<Rightarrow> real" where
  "fmul a b = rnd (a * b)"

definition fdiv :: "real \<Rightarrow> real \<Rightarrow> real" where
  "fdiv a b = rnd (a / b)"

definition uint_to_float :: "nat \<Rightarrow> real" where
  \<comment> \<open>\<^verbatim>\<open>float(u)\<close> and \<^verbatim>\<open>Scalar(u)\<close> for an \<^verbatim>\<open>unsigned int u\<close>\<close>
  "uint_to_float u = rnd (real u)"

definition ceilf :: "real \<Rightarrow> real" where
  \<comment> \<open>exact: the ceiling of a binary32 number is a binary32 number\<close>
  "ceilf x = of_int \<lceil>x\<rceil>"

definition powf :: "real \<Rightarrow> real \<Rightarrow> real" where
  \<comment> \<open>the library function, taken to be correctly rounded\<close>
  "powf x y = rnd (x powr y)"

subsection \<open>Index mapping\<close>

text \<open>
  Modelled from the spec: \<^verbatim>\<open>Index1D.h\<close> (classes \<^verbatim>\<open>Index2D\<close> and \<^verbatim>\<open>Index3D\<close>) is not part of
  the sources at hand. The spec describes them as a leaf utility mapping multi-dimensional
  cell/slot coordinates to flat storage offsets, with no state beyond dimensions; the
  layout is row major, the first coordinate running fastest, computed in
  \<^verbatim>\<open>unsigned int\<close>.
\<close>

record Index2D =
  i2_w :: nat
  i2_h :: nat

record Index3D =
  i3_w :: nat
  i3_h :: nat
  i3_d :: nat

definition Index2D_at :: "Index2D \<Rightarrow> nat \<Rightarrow> nat \<Rightarrow> nat" where
  "Index2D_at ix i j = uint (j * i2_w ix + i)"

definition Index2D_getNumElements :: "Index2D \<Rightarrow> nat" where
  "Index2D_getNumElements ix = uint (i2_w ix * i2_h ix)"

definition Index3D_at :: "Index3D \<Rightarrow> nat \<Rightarrow> nat \<Rightarrow> nat \<Rightarrow> nat" where
  "Index3D_at ix i j k = uint ((k * i3_h ix + j) * i3_w ix + i)"

definition Index3D_getNumElements :: "Index3D \<Rightarrow> nat" where
  "Index3D_getNumElements ix = uint (i3_w ix * i3_h ix * i3_d ix)"

subsection \<open>Scalars, the box and the particle data\<close>

text \<open>
  Modelled from the spec: the header that defines \<^verbatim>\<open>Scalar\<close> and \<^verbatim>\<open>__int_as_scalar\<close> is not part
  of the sources at hand. The flag field holds the charge or the particle index ``encoded in
  the same storage width'', and the call sites pass an integer where a Scalar is stored: the
  32 bits of the integer become the 32 bits of the Scalar.
\<close>

type_synonym Scalar = nat
  \<comment> \<open>a stored Scalar: its 32 bits, sign (bit 31), exponent field (bits 30 to 23) and
      fraction (bits 22 to 0), read as an unsigned number\<close>

definition isnan :: "Scalar \<Rightarrow> bool" where
  \<comment> \<open>exponent field all ones and a fraction that is not zero\<close>
  "isnan b \<longleftrightarrow> (b div 2 ^ 23) mod 256 = 255 \<and> b mod 2 ^ 23 \<noteq> 0"

definition num :: "Scalar \<Rightarrow> real" where
  \<comment> \<open>the number held by a stored Scalar: subnormal when the exponent field is zero; an
      exponent field of all ones (infinity, NaN) is outside the finite range\<close>
  "num b =
     (let e = (b div 2 ^ 23) mod 256;
          m = b mod 2 ^ 23;
          v = (if e = 0 then real m * 2 powi (- 149)
               else real (2 ^ 23 + m) * 2 powi (int e - 150))
      in if (b div 2 ^ 31) mod 2 = 1 then - v else v)"

definition int_as_scalar :: "nat \<Rightarrow> Scalar" where
  \<comment> \<open>\<^verbatim>\<open>__int_as_scalar\<close> reinterprets the 32 bits of the integer\<close>
  "int_as_scalar n = n"

definition Scalar_0 :: Scalar where
  \<comment> \<open>\<^verbatim>\<open>Scalar(0.0)\<close>, all bits clear\<close>
  "Scalar_0 = 0"

type_synonym Scalar4 = "Scalar \<times> Scalar \<times> Scalar \<times> Scalar"

definition make_scalar4 :: "Scalar \<Rightarrow> Scalar \<Rightarrow> Scalar \<Rightarrow> Scalar \<Rightarrow> Scalar4" where
  "make_scalar4 a b c d = (a, b, c, d)"

record BoxDim =
  xlo :: real
  xhi :: real
  ylo :: real
  yhi :: real
  zlo :: real
  zhi :: real

text \<open>
  One entry of \<^verbatim>\<open>ParticleDataArraysConst\<close>: the arrays \<^verbatim>\<open>x, y, z, charge, diameter, type,
  body\<close> all have \<^verbatim>\<open>nparticles\<close> elements and are read at the same index, so the model keeps
  one record per particle and the list of them in index order.
\<close>

record Particle =
  p_x :: Scalar
  p_y :: Scalar
  p_z :: Scalar
  p_charge :: Scalar
  p_diameter :: Scalar
  p_type :: nat
  p_body :: nat

text \<open>
  What the cell list reads from its collaborators: the particle data (\<^verbatim>\<open>m_pdata\<close>), the
  system definition (\<^verbatim>\<open>m_sysdef\<close>) and the periodicity policy \<^verbatim>\<open>shouldCompute\<close> of the base
  class \<^verbatim>\<open>Compute\<close>.
\<close>

record SystemData =
  getBox :: BoxDim
  getNDimensions :: nat
  arrays :: "Particle list"
  shouldCompute :: "nat \<Rightarrow> bool"

definition getN :: "SystemData \<Rightarrow> nat" where
  "getN sys = length (arrays sys)"

subsection \<open>The cell list object\<close>

type_synonym uint3 = "nat \<times> nat \<times> nat"
type_synonym Scalar3 = "real \<times> real \<times> real"
  \<comment> \<open>the numbers held by the three components\<close>

record CellList =
  m_nominal_width :: real
  m_radius :: nat
  m_max_cells :: nat
  m_compute_tdb :: bool
  m_flag_charge :: bool
  m_width :: Scalar3
  m_dim :: uint3
  m_Nmax :: nat
  m_params_changed :: bool
  m_particles_sorted :: bool
  m_box_changed :: bool
  m_overflowed :: bool
  m_cell_indexer :: Index3D
  m_cell_list_indexer :: Index2D
  m_cell_adj_indexer :: Index2D
  m_cell_size :: "nat list"
  m_cell_adj :: "nat list"
  m_xyzf :: "Scalar4 list"
  m_tdb :: "Scalar4 list"

datatype error =
    InvalidPosition nat   \<comment> \<open>particle \<open>n\<close> has NaN for its position\<close>
  | OutOfBoundsCell nat   \<comment> \<open>particle \<open>n\<close> is no longer in the simulation box\<close>
  | BucketOverflow nat    \<comment> \<open>more than \<open>Nmax\<close> particles in one cell\<close>
  | BufferOverrun         \<comment> \<open>an array indexed past its end (undefined behaviour in C++)\<close>

text \<open>The constructor: allocation is deferred until the first \<^verbatim>\<open>compute\<close> call.\<close>

definition CellList_new :: CellList where
  "CellList_new =
     \<lparr> m_nominal_width = 1, m_radius = 1, m_max_cells = UINT_MAX,
       m_compute_tdb = False, m_flag_charge = False,
       m_width = (0, 0, 0), m_dim = (0, 0, 0), m_Nmax = 32,
       m_params_changed = True, m_particles_sorted = False, m_box_changed = False,
       m_overflowed = False,
       m_cell_indexer = \<lparr> i3_w = 0, i3_h = 0, i3_d = 0 \<rparr>,
       m_cell_list_indexer = \<lparr> i2_w = 0, i2_h = 0 \<rparr>,
       m_cell_adj_indexer = \<lparr> i2_w = 0, i2_h = 0 \<rparr>,
       m_cell_size = [], m_cell_adj = [], m_xyzf = [], m_tdb = [] \<rparr>"

text \<open>The notification slots only set a flag.\<close>

definition slotParticlesSorted :: "CellList \<Rightarrow> CellList" where
  "slotParticlesSorted s = s\<lparr> m_particles_sorted := True \<rparr>"

definition slotBoxChanged :: "CellList \<Rightarrow> CellList" where
  "slotBoxChanged s = s\<lparr> m_box_changed := True \<rparr>"

subsection \<open>Grid dimensions\<close>

definition computeDimensions :: "SystemData \<Rightarrow> CellList \<Rightarrow> uint3" where
  "computeDimensions sys s =
     (let box = getBox sys;
          dx = float_to_uint (fdiv (fsub (xhi box) (xlo box)) (m_nominal_width s));
          dy = float_to_uint (fdiv (fsub (yhi box) (ylo box)) (m_nominal_width s))
      in if getNDimensions sys = 2 then
           (let dz = 3 in
            if uint (uint (dx * dy) * dz) > m_max_cells s then
              (let scale_factor =
                     powf (fdiv (uint_to_float (m_max_cells s))
                                (uint_to_float (uint (uint (dx * dy) * dz))))
                          (fdiv 1 2)
               in (int_to_uint (float_to_int (fmul (uint_to_float dx) scale_factor)),
                   int_to_uint (float_to_int (fmul (uint_to_float dy) scale_factor)),
                   dz))
            else (dx, dy, dz))
         else
           (let dz = float_to_uint (fdiv (fsub (zhi box) (zlo box)) (m_nominal_width s)) in
            if uint (uint (dx * dy) * dz) > m_max_cells s then
              (let scale_factor =
                     powf (fdiv (uint_to_float (m_max_cells s))
                                (uint_to_float (uint (uint (dx * dy) * dz))))
                          (fdiv 1 3)
               in (int_to_uint (float_to_int (fmul (uint_to_float dx) scale_factor)),
                   int_to_uint (float_to_int (fmul (uint_to_float dy) scale_factor)),
                   int_to_uint (float_to_int (fmul (uint_to_float dz) scale_factor))))
            else (dx, dy, dz)))"

definition initializeWidth :: "SystemData \<Rightarrow> CellList \<Rightarrow> CellList" where
  "initializeWidth sys s =
     (let dims = computeDimensions sys s;
          box = getBox sys
      in case dims of (dx, dy, dz) \<Rightarrow>
           s\<lparr> m_dim := dims,
              m_width := (fdiv (fsub (xhi box) (xlo box)) (uint_to_float dx),
                          fdiv (fsub (yhi box) (ylo box)) (uint_to_float dy),
                          fdiv (fsub (zhi box) (zlo box)) (uint_to_float dz)) \<rparr>)"

subsection \<open>Memory and the adjacency table\<close>

text \<open>
  \<^verbatim>\<open>GPUArray<T>(n, exec_conf)\<close> allocates \<open>n\<close> elements and clears them (\<^verbatim>\<open>GPUArray.h\<close> is not
  part of the sources at hand; a default constructed array is empty).
\<close>

definition GPUArray_uint :: "nat \<Rightarrow> nat list" where
  "GPUArray_uint n = replicate n 0"

definition GPUArray_Scalar4 :: "nat \<Rightarrow> Scalar4 list" where
  "GPUArray_Scalar4 n = replicate n (0, 0, 0, 0)"

definition estimate_Nmax :: "nat \<Rightarrow> uint3 \<Rightarrow> nat" where
  \<comment> \<open>\<^verbatim>\<open>(unsigned int)(ceilf(float(N*1.1f / float(dim.x*dim.y*dim.z))))\<close>\<close>
  "estimate_Nmax N dims =
     (case dims of (dx, dy, dz) \<Rightarrow>
        float_to_uint
          (ceilf (fdiv (fmul (uint_to_float N) (rnd (11 / 10)))
                       (uint_to_float (uint (uint (dx * dy) * dz))))))"

definition round_Nmax :: "nat \<Rightarrow> nat" where
  \<comment> \<open>\<^verbatim>\<open>estimated_Nmax + 32 - (estimated_Nmax & 31)\<close>, in \<^verbatim>\<open>unsigned int\<close>\<close>
  "round_Nmax estimated_Nmax = uint (estimated_Nmax + 32 - (estimated_Nmax AND 31))"

text \<open>
  The innermost loop body of \<^verbatim>\<open>initializeCellAdj\<close>: \<^verbatim>\<open>%\<close> truncates towards zero
  (\<open>smod\<close>), a negative remainder is moved up by the dimension.
\<close>

definition wrap_coord :: "int \<Rightarrow> int \<Rightarrow> int" where
  "wrap_coord n m = (let w = n smod m in if w < 0 then w + m else w)"

definition adj_store ::
    "Index3D \<Rightarrow> Index2D \<Rightarrow> int \<Rightarrow> int \<Rightarrow> int \<Rightarrow> nat \<Rightarrow> int \<Rightarrow> int \<Rightarrow> int
      \<Rightarrow> nat list \<times> nat \<Rightarrow> nat list \<times> nat" where
  "adj_store ci cai mx my mz cur_cell nk nj ni st =
     (case st of (adj, offset) \<Rightarrow>
        (let wrapi = wrap_coord ni mx;
             wrapj = wrap_coord nj my;
             wrapk = wrap_coord nk mz;
             neigh_cell = Index3D_at ci (int_to_uint wrapi) (int_to_uint wrapj) (int_to_uint wrapk)
         in (adj[Index2D_at cai offset cur_cell := neigh_cell], uint (offset + 1))))"

definition sort_range :: "nat list \<Rightarrow> nat \<Rightarrow> nat \<Rightarrow> nat list" where
  \<comment> \<open>\<^verbatim>\<open>std::sort(&a[b], &a[e])\<close>\<close>
  "sort_range a b e = take b a @ sort (take (e - b) (drop b a)) @ drop e a"

definition adj_cell :: "CellList \<Rightarrow> int \<Rightarrow> int \<Rightarrow> int \<Rightarrow> nat list \<Rightarrow> nat list" where
  \<comment> \<open>the body of the loop over all cells, for the cell \<open>(i, j, k)\<close>\<close>
  "adj_cell s i j k adj =
     (case m_dim s of (dx, dy, dz) \<Rightarrow>
        (let ci = m_cell_indexer s;
             cai = m_cell_adj_indexer s;
             cur_cell = Index3D_at ci (int_to_uint i) (int_to_uint j) (int_to_uint k);
             r = to_int (m_radius s);
             mx = to_int dx;
             my = to_int dy;
             mz = to_int dz;
             (adj', offset) =
                fold (\<lambda>nk. fold (\<lambda>nj. fold (\<lambda>ni. adj_store ci cai mx my mz cur_cell nk nj ni)
                                          [i - r..i + r])
                                [j - r..j + r])
                     [k - r..k + r] (adj, 0)
         in sort_range adj' (Index2D_at cai 0 cur_cell) (Index2D_at cai offset cur_cell)))"

definition initializeCellAdj :: "CellList \<Rightarrow> CellList" where
  "initializeCellAdj s =
     (case m_dim s of (dx, dy, dz) \<Rightarrow>
        s\<lparr> m_cell_adj :=
             fold (\<lambda>k. fold (\<lambda>j. fold (\<lambda>i. adj_cell s i j k)
                                      [0..to_int dx - 1])
                            [0..to_int dy - 1])
                  [0..to_int dz - 1] (m_cell_adj s) \<rparr>)"

definition initializeMemory :: "SystemData \<Rightarrow> CellList \<Rightarrow> CellList" where
  "initializeMemory sys s =
     (case m_dim s of (dx, dy, dz) \<Rightarrow>
        (let estimated_Nmax = estimate_Nmax (getN sys) (m_dim s);
             Nmax = round_Nmax estimated_Nmax;
             ci = \<lparr> i3_w = dx, i3_h = dy, i3_d = dz \<rparr>;
             cli = \<lparr> i2_w = Nmax, i2_h = Index3D_getNumElements ci \<rparr>;
             r = m_radius s;
             cai = \<lparr> i2_w = uint (uint (uint (r * 2 + 1) * uint (r * 2 + 1)) * uint (r * 2 + 1)),
                     i2_h = Index3D_getNumElements ci \<rparr>
         in initializeCellAdj
              (s\<lparr> m_Nmax := Nmax,
                  m_cell_indexer := ci,
                  m_cell_list_indexer := cli,
                  m_cell_adj_indexer := cai,
                  m_cell_size := GPUArray_uint (Index3D_getNumElements ci),
                  m_cell_adj := GPUArray_uint (Index2D_getNumElements cai),
                  m_xyzf := GPUArray_Scalar4 (Index2D_getNumElements cli),
                  m_tdb := (if m_compute_tdb s then GPUArray_Scalar4 (Index2D_getNumElements cli)
                            else []) \<rparr>)))"

definition initializeAll :: "SystemData \<Rightarrow> CellList \<Rightarrow> CellList" where
  "initializeAll sys s = initializeMemory sys (initializeWidth sys s)"

subsection \<open>The bucket fill\<close>

definition store :: "'a list \<Rightarrow> nat \<Rightarrow> 'a \<Rightarrow> 'a list option" where
  \<comment> \<open>\<^verbatim>\<open>a[i] = v\<close>; \<open>None\<close> when \<open>i\<close> is past the end of the array\<close>
  "store a i v = (if i < length a then Some (a[i := v]) else None)"

definition find_bin :: "BoxDim \<Rightarrow> Scalar3 \<Rightarrow> uint3 \<Rightarrow> Particle \<Rightarrow> uint3" where
  \<comment> \<open>"find the bin each particle belongs in", with the exception at the box hi\<close>
  "find_bin box scale dims p =
     (case (scale, dims) of ((sx, sy, sz), (dx, dy, dz)) \<Rightarrow>
        (let ib = float_to_uint (fmul (fsub (num (p_x p)) (xlo box)) sx);
             jb = float_to_uint (fmul (fsub (num (p_y p)) (ylo box)) sy);
             kb = float_to_uint (fmul (fsub (num (p_z p)) (zlo box)) sz)
         in (if ib = dx then 0 else ib, if jb = dy then 0 else jb, if kb = dz then 0 else kb)))"

definition computeCellList_body ::
    "BoxDim \<Rightarrow> Scalar3 \<Rightarrow> Index3D \<Rightarrow> Index2D \<Rightarrow> nat \<Rightarrow> Particle \<Rightarrow> CellList
      \<Rightarrow> error option \<times> CellList" where
  \<comment> \<open>the body of the loop over the particles, for particle \<open>n\<close>\<close>
  "computeCellList_body box scale ci cli n p s =
     (if isnan (p_x p) \<or> isnan (p_y p) \<or> isnan (p_z p) then (Some (InvalidPosition n), s)
      else
        (case find_bin box scale (m_dim s) p of (ib, jb, kb) \<Rightarrow>
          (let bin = Index3D_at ci ib jb kb
           in if bin \<ge> Index3D_getNumElements ci then (Some (OutOfBoundsCell n), s)
              else
                (let flag = (if m_flag_charge s then p_charge p else int_as_scalar n) in
                 if bin \<ge> length (m_cell_size s) then (Some BufferOverrun, s)
                 else
                   (let offset = m_cell_size s ! bin in
                    (case (if offset < m_Nmax s then
                             (case store (m_xyzf s) (Index2D_at cli offset bin)
                                     (make_scalar4 (p_x p) (p_y p) (p_z p) flag) of
                                None \<Rightarrow> None
                              | Some xyzf \<Rightarrow>
                                  if m_compute_tdb s then
                                    (case store (m_tdb s) (Index2D_at cli offset bin)
                                            (make_scalar4 (int_as_scalar (p_type p)) (p_diameter p)
                                                          (int_as_scalar (p_body p)) Scalar_0) of
                                       None \<Rightarrow> None
                                     | Some tdb \<Rightarrow> Some (s\<lparr> m_xyzf := xyzf, m_tdb := tdb \<rparr>))
                                  else Some (s\<lparr> m_xyzf := xyzf \<rparr>))
                           else Some (s\<lparr> m_overflowed := True \<rparr>)) of
                       None \<Rightarrow> (Some BufferOverrun, s)
                     | Some s' \<Rightarrow>
                         (None, s'\<lparr> m_cell_size := (m_cell_size s')[bin := uint (offset + 1)] \<rparr>)))))))"

fun computeCellList_loop ::
    "BoxDim \<Rightarrow> Scalar3 \<Rightarrow> Index3D \<Rightarrow> Index2D \<Rightarrow> nat \<Rightarrow> Particle list \<Rightarrow> CellList
      \<Rightarrow> error option \<times> CellList" where
  "computeCellList_loop box scale ci cli n [] s = (None, s)"
| "computeCellList_loop box scale ci cli n (p # ps) s =
     (case computeCellList_body box scale ci cli n p s of
        (Some e, s') \<Rightarrow> (Some e, s')
      | (None, s') \<Rightarrow> computeCellList_loop box scale ci cli (n + 1) ps s')"

definition computeCellList :: "SystemData \<Rightarrow> CellList \<Rightarrow> error option \<times> CellList" where
  "computeCellList sys s =
     (case m_width s of (wx, wy, wz) \<Rightarrow>
        (let scale = (fdiv 1 wx, fdiv 1 wy, fdiv 1 wz);
             box = getBox sys;
             ci = m_cell_indexer s;
             cli = m_cell_list_indexer s;
             ne = Index3D_getNumElements (m_cell_indexer s)
         in if ne > length (m_cell_size s) then (Some BufferOverrun, s)
            else computeCellList_loop box scale ci cli 0 (arrays sys)
                   (s\<lparr> m_cell_size := replicate ne 0 @ drop ne (m_cell_size s) \<rparr>)))"

subsection \<open>The driver\<close>

text \<open>
  \<^verbatim>\<open>compute\<close> in two parts: first the three blocks that react to the change flags and
  decide \<^verbatim>\<open>force\<close>, then the rebuild.
\<close>

definition compute_flags :: "SystemData \<Rightarrow> CellList \<Rightarrow> CellList \<times> bool" where
  "compute_flags sys s0 =
     (let force0 = False;
          (s1, force1) =
             (if m_params_changed s0
              then ((initializeAll sys s0)\<lparr> m_params_changed := False \<rparr>, True)
              else (s0, force0));
          (s2, force2) =
             (if m_box_changed s1
              then ((if computeDimensions sys s1 = m_dim s1
                     then initializeWidth sys s1
                     else initializeAll sys s1)\<lparr> m_box_changed := False \<rparr>, True)
              else (s1, force1))
      in if m_particles_sorted s2
         then (s2\<lparr> m_particles_sorted := False \<rparr>, True)
         else (s2, force2))"

definition compute :: "SystemData \<Rightarrow> nat \<Rightarrow> CellList \<Rightarrow> error option \<times> CellList" where
  "compute sys timestep s0 =
     (case compute_flags sys s0 of (s3, force) \<Rightarrow>
        if shouldCompute sys timestep \<or> force then
          (case computeCellList sys (s3\<lparr> m_overflowed := False \<rparr>) of
             (Some e, s4) \<Rightarrow> (Some e, s4)
           | (None, s4) \<Rightarrow>
               if m_overflowed s4 then (Some (BucketOverflow (m_Nmax s4)), s4) else (None, s4))
        else (None, s3))"

subsection \<open>Concrete inputs\<close>

definition sys_of :: "BoxDim \<Rightarrow> Particle list \<Rightarrow> SystemData" where
  \<comment> \<open>a three-dimensional system whose periodicity policy asks for a rebuild at every step\<close>
  "sys_of box ps =
     \<lparr> getBox = box, getNDimensions = 3, arrays = ps, shouldCompute = (\<lambda>t. True) \<rparr>"

definition box_half :: BoxDim where
  "box_half = \<lparr> xlo = 0, xhi = 1 / 2, ylo = 0, yhi = 1 / 2, zlo = 0, zhi = 1 / 2 \<rparr>"

definition box_1000 :: BoxDim where
  "box_1000 = \<lparr> xlo = 0, xhi = 1000, ylo = 0, yhi = 1000, zlo = 0, zhi = 1000 \<rparr>"

definition box_1 :: BoxDim where
  "box_1 = \<lparr> xlo = 0, xhi = 1, ylo = 0, yhi = 1, zlo = 0, zhi = 1 \<rparr>"

text \<open>
  Bit patterns of the coordinates used below: \<open>0\<close> is \<^verbatim>\<open>0.0f\<close>, \<open>1065353216\<close> (\<^verbatim>\<open>0x3F800000\<close>) is
  \<^verbatim>\<open>1.0f\<close>, \<open>1077936127\<close> (\<^verbatim>\<open>0x403FFFFF\<close>) is
  \<open>3 - 2\<^sup>-\<^sup>2\<^sup>2\<close>, the binary32 number just below 3, and \<open>2143289344\<close> (\<^verbatim>\<open>0x7FC00000\<close>) is a NaN.
  A particle has charge \<^verbatim>\<open>0.0f\<close> and diameter \<^verbatim>\<open>1.0f\<close>.
\<close>

definition particle_at :: "Scalar \<Rightarrow> Scalar \<Rightarrow> Scalar \<Rightarrow> Particle" where
  "particle_at a b c =
     \<lparr> p_x = a, p_y = b, p_z = c, p_charge = 0, p_diameter = 1065353216, p_type = 0,
       p_body = 0 \<rparr>"

text \<open>
  The cell list of a grid with a single cell, as the first \<^verbatim>\<open>compute\<close> leaves it for
  \<open>box_1\<close> and a few particles: capacity 32, one neighbour shell, all change flags cleared.
\<close>

definition cl_1 :: CellList where
  "cl_1 =
     \<lparr> m_nominal_width = 1, m_radius = 1, m_max_cells = UINT_MAX,
       m_compute_tdb = False, m_flag_charge = False,
       m_width = (1, 1, 1), m_dim = (1, 1, 1), m_Nmax = 32,
       m_params_changed = False, m_particles_sorted = False, m_box_changed = False,
       m_overflowed = False,
       m_cell_indexer = \<lparr> i3_w = 1, i3_h = 1, i3_d = 1 \<rparr>,
       m_cell_list_indexer = \<lparr> i2_w = 32, i2_h = 1 \<rparr>,
       m_cell_adj_indexer = \<lparr> i2_w = 27, i2_h = 1 \<rparr>,
       m_cell_size = [0], m_cell_adj = replicate 27 0,
       m_xyzf = replicate 32 (0, 0, 0, 0), m_tdb = [] \<rparr>"

definition origin :: Particle where
  "origin = particle_at 0 0 0"

definition nan_particle :: Particle where
  "nan_particle = particle_at 2143289344 0 0"

definition corner :: Particle where
  \<comment> \<open>a particle exactly at box hi of \<open>box_1\<close> on every axis\<close>
  "corner = particle_at 1065353216 1065353216 1065353216"

text \<open>
  A new object with nominal width \<open>9 / 64\<close> for the box \<open>[0, 1] \<times> [0, 9 / 64] \<times> [0, 9 / 64]\<close>:
  seven cells along x, one along y and z; and a particle exactly at box hi on the x axis.
\<close>

definition box_7 :: BoxDim where
  "box_7 = \<lparr> xlo = 0, xhi = 1, ylo = 0, yhi = 9 / 64, zlo = 0, zhi = 9 / 64 \<rparr>"

definition cl_7 :: CellList where
  "cl_7 = CellList_new\<lparr> m_nominal_width := 9 / 64 \<rparr>"

definition at_hi :: Particle where
  "at_hi = particle_at 1065353216 0 0"

text \<open>
  A new object with nominal width \<open>15 / 128\<close> for the box
  \<open>[0, 3] \<times> [0, 15 / 128] \<times> [0, 15 / 128]\<close>: 25 cells along x, one along y and z; and a
  particle at the binary32 number just below box hi on the x axis.
\<close>

definition box_25 :: BoxDim where
  "box_25 = \<lparr> xlo = 0, xhi = 3, ylo = 0, yhi = 15 / 128, zlo = 0, zhi = 15 / 128 \<rparr>"


definition below_hi :: Particle where
  "below_hi = particle_at 1077936127 0 0"

subsection \<open>Notions used to state the properties\<close>

definition storage_ok :: "CellList \<Rightarrow> bool" where
  \<comment> \<open>the arrays have the sizes that \<^verbatim>\<open>initializeMemory\<close> gives them for the current
      indexers and capacity, and the bucket array can be indexed in \<^verbatim>\<open>unsigned int\<close>\<close>
  "storage_ok s \<longleftrightarrow>
     length (m_cell_size s) = Index3D_getNumElements (m_cell_indexer s) \<and>
     i2_w (m_cell_list_indexer s) = m_Nmax s \<and>
     m_Nmax s * Index3D_getNumElements (m_cell_indexer s) < 2 ^ 32 \<and>
     length (m_xyzf s) = m_Nmax s * Index3D_getNumElements (m_cell_indexer s) \<and>
     (m_compute_tdb s \<longrightarrow> length (m_tdb s) = length (m_xyzf s))"

definition has_nan :: "Particle \<Rightarrow> bool" where
  "has_nan p \<longleftrightarrow> isnan (p_x p) \<or> isnan (p_y p) \<or> isnan (p_z p)"

definition bin_of :: "BoxDim \<Rightarrow> Scalar3 \<Rightarrow> uint3 \<Rightarrow> Index3D \<Rightarrow> Particle \<Rightarrow> nat" where
  \<comment> \<open>the flat cell id computed in the loop body: \<^verbatim>\<open>ci(ib, jb, kb)\<close>\<close>
  "bin_of box scale dims ci p =
     (case find_bin box scale dims p of (ib, jb, kb) \<Rightarrow> Index3D_at ci ib jb kb)"

definition cell_of :: "SystemData \<Rightarrow> CellList \<Rightarrow> Particle \<Rightarrow> nat" where
  \<comment> \<open>the cell id that \<^verbatim>\<open>computeCellList\<close> computes for a particle\<close>
  "cell_of sys s p =
     (case m_width s of (wx, wy, wz) \<Rightarrow>
        bin_of (getBox sys) (fdiv 1 wx, fdiv 1 wy, fdiv 1 wz) (m_dim s) (m_cell_indexer s) p)"

definition occupancy :: "SystemData \<Rightarrow> CellList \<Rightarrow> nat \<Rightarrow> nat" where
  \<comment> \<open>the true occupancy of a cell: the number of particles that map to it\<close>
  "occupancy sys s c = length (filter (\<lambda>p. cell_of sys s p = c) (arrays sys))"

definition record_of :: "CellList \<Rightarrow> nat \<Rightarrow> Particle \<Rightarrow> Scalar4" where
  \<comment> \<open>the position and flag record that particle \<open>n\<close> contributes to its bucket\<close>
  "record_of s n p =
     make_scalar4 (p_x p) (p_y p) (p_z p) (if m_flag_charge s then p_charge p else int_as_scalar n)"

definition bin_coords :: "SystemData \<Rightarrow> CellList \<Rightarrow> Particle \<Rightarrow> uint3" where
  \<comment> \<open>the bin triple \<^verbatim>\<open>(ib, jb, kb)\<close> that \<^verbatim>\<open>computeCellList\<close> computes for a particle\<close>
  "bin_coords sys s p =
     (case m_width s of (wx, wy, wz) \<Rightarrow>
        find_bin (getBox sys) (fdiv 1 wx, fdiv 1 wy, fdiv 1 wz) (m_dim s) p)"

definition grid_ok :: "SystemData \<Rightarrow> CellList \<Rightarrow> bool" where
  \<comment> \<open>the grid invariant of the data model, as \<^verbatim>\<open>initializeWidth\<close> and \<^verbatim>\<open>initializeMemory\<close>
      establish it: at least one cell per axis, the cell count an \<^verbatim>\<open>unsigned int\<close>, the indexer
      built from \<open>dim\<close>, and \<open>width = extent / dim\<close> as computed; and the range in which the
      rounding errors of the binning stay below half a cell: at most \<open>2\<^sup>2\<^sup>1\<close> cells per axis
      and computed extents between \<open>2\<^sup>-\<^sup>1\<^sup>0\<^sup>0\<close> and \<open>2\<^sup>1\<^sup>0\<^sup>0\<close>\<close>
  "grid_ok sys s \<longleftrightarrow>
     (case m_dim s of (dx, dy, dz) \<Rightarrow>
        1 \<le> dx \<and> 1 \<le> dy \<and> 1 \<le> dz \<and>
        dx \<le> 2 ^ 21 \<and> dy \<le> 2 ^ 21 \<and> dz \<le> 2 ^ 21 \<and> dx * dy * dz < 2 ^ 32 \<and>
        m_cell_indexer s = \<lparr> i3_w = dx, i3_h = dy, i3_d = dz \<rparr> \<and>
        2 powi (- 100) \<le> fsub (xhi (getBox sys)) (xlo (getBox sys)) \<and>
        fsub (xhi (getBox sys)) (xlo (getBox sys)) \<le> 2 ^ 100 \<and>
        2 powi (- 100) \<le> fsub (yhi (getBox sys)) (ylo (getBox sys)) \<and>
        fsub (yhi (getBox sys)) (ylo (getBox sys)) \<le> 2 ^ 100 \<and>
        2 powi (- 100) \<le> fsub (zhi (getBox sys)) (zlo (getBox sys)) \<and>
        fsub (zhi (getBox sys)) (zlo (getBox sys)) \<le> 2 ^ 100 \<and>
        m_width s = (fdiv (fsub (xhi (getBox sys)) (xlo (getBox sys))) (uint_to_float dx),
                     fdiv (fsub (yhi (getBox sys)) (ylo (getBox sys))) (uint_to_float dy),
                     fdiv (fsub (zhi (getBox sys)) (zlo (getBox sys))) (uint_to_float dz)))"

definition in_box :: "BoxDim \<Rightarrow> Particle \<Rightarrow> bool" where
  \<comment> \<open>a valid position: no NaN, every coordinate between box lo and box hi, both included\<close>
  "in_box box p \<longleftrightarrow>
     \<not> has_nan p \<and>
     xlo box \<le> num (p_x p) \<and> num (p_x p) \<le> xhi box \<and>
     ylo box \<le> num (p_y p) \<and> num (p_y p) \<le> yhi box \<and>
     zlo box \<le> num (p_z p) \<and> num (p_z p) \<le> zhi box"




definition same_allocation :: "CellList \<Rightarrow> CellList \<Rightarrow> bool" where
  \<comment> \<open>the second state differs from the first at most in the contents of the counters and
      buckets and in the overflow flag: parameters, grid, capacity, indexers, adjacency
      table, change flags and the sizes of all arrays are the same\<close>
  "same_allocation s s' \<longleftrightarrow>
     s' = s\<lparr> m_cell_size := m_cell_size s', m_xyzf := m_xyzf s', m_tdb := m_tdb s',
             m_overflowed := m_overflowed s' \<rparr> \<and>
     length (m_cell_size s') = length (m_cell_size s) \<and>
     length (m_xyzf s') = length (m_xyzf s) \<and>
     length (m_tdb s') = length (m_tdb s)"

definition adj_list :: "CellList \<Rightarrow> nat \<Rightarrow> nat list" where
  \<comment> \<open>the adjacency list of cell \<open>c\<close>: the entries \<^verbatim>\<open>cell_adj[cai(0, c)]\<close> up to
      \<^verbatim>\<open>cell_adj[cai(w - 1, c)]\<close>, where \<open>w\<close> is the width of the adjacency indexer\<close>
  "adj_list s c =
     take (i2_w (m_cell_adj_indexer s)) (drop (c * i2_w (m_cell_adj_indexer s)) (m_cell_adj s))"

text \<open>
  The neighbours of a cell in the words of the spec: all coordinates that differ from the
  cell's by at most \<open>radius\<close> on each axis, each wrapped by floor-modulo (\<open>mod\<close> on \<open>int\<close>,
  never negative) over the dimension of its axis, flattened to a cell id; one entry per
  offset, repeated ids included.
\<close>

definition neighbour_id :: "uint3 \<Rightarrow> int \<times> int \<times> int \<Rightarrow> nat" where
  "neighbour_id dims n =
     (case (dims, n) of ((dx, dy, dz), (nk, nj, ni)) \<Rightarrow>
        (nat (nk mod int dz) * dy + nat (nj mod int dy)) * dx + nat (ni mod int dx))"

definition neighbour_ids :: "uint3 \<Rightarrow> nat \<Rightarrow> nat \<Rightarrow> nat \<Rightarrow> nat \<Rightarrow> nat list" where
  "neighbour_ids dims r i j k =
     map (neighbour_id dims)
       (List.product [int k - int r..int k + int r]
          (List.product [int j - int r..int j + int r] [int i - int r..int i + int r]))"

text \<open>Replacing the list of one cell in the flat table (used in the proofs only).\<close>

definition put_seg :: "nat \<Rightarrow> nat \<Rightarrow> nat list \<Rightarrow> nat list \<Rightarrow> nat list" where
  "put_seg w c xs a = take (c * w) a @ xs @ drop (c * w + w) a"

definition seg :: "nat \<Rightarrow> nat \<Rightarrow> nat list \<Rightarrow> nat list" where
  "seg w c a = take w (drop (c * w) a)"

definition adj_ready :: "CellList \<Rightarrow> bool" where
  \<comment> \<open>what \<^verbatim>\<open>initializeCellAdj\<close> relies on: a grid with at least one cell per axis whose
      dimensions are non-negative as \<^verbatim>\<open>int\<close>, the indexers built from \<open>dim\<close> and \<open>radius\<close>, and
      an adjacency array of \<open>(2 radius + 1)\<^sup>3\<close> entries per cell that can be indexed in
      \<^verbatim>\<open>unsigned int\<close>\<close>
  "adj_ready s \<longleftrightarrow>
     (case m_dim s of (dx, dy, dz) \<Rightarrow>
        1 \<le> dx \<and> 1 \<le> dy \<and> 1 \<le> dz \<and> dx < 2 ^ 31 \<and> dy < 2 ^ 31 \<and> dz < 2 ^ 31 \<and>
        m_cell_indexer s = \<lparr> i3_w = dx, i3_h = dy, i3_d = dz \<rparr> \<and>
        m_cell_adj_indexer s = \<lparr> i2_w = (2 * m_radius s + 1) ^ 3, i2_h = dx * dy * dz \<rparr> \<and>
        (2 * m_radius s + 1) ^ 3 * (dx * dy * dz) < 2 ^ 32 \<and>
        length (m_cell_adj s) = (2 * m_radius s + 1) ^ 3 * (dx * dy * dz))"

text \<open>
  The state that \<^verbatim>\<open>initializeMemory\<close> hands to \<^verbatim>\<open>initializeCellAdj\<close>: indexers and fresh
  arrays in place, the adjacency table still to be filled.
\<close>

definition mem_of :: "SystemData \<Rightarrow> CellList \<Rightarrow> CellList" where
  "mem_of sys s =
     (case m_dim s of (dx, dy, dz) \<Rightarrow>
        (let Nmax = round_Nmax (estimate_Nmax (getN sys) (m_dim s));
             ci = \<lparr> i3_w = dx, i3_h = dy, i3_d = dz \<rparr>;
             cli = \<lparr> i2_w = Nmax, i2_h = Index3D_getNumElements ci \<rparr>;
             r = m_radius s;
             cai = \<lparr> i2_w = uint (uint (uint (r * 2 + 1) * uint (r * 2 + 1)) * uint (r * 2 + 1)),
                     i2_h = Index3D_getNumElements ci \<rparr>
         in s\<lparr> m_Nmax := Nmax,
                  m_cell_indexer := ci,
                  m_cell_list_indexer := cli,
                  m_cell_adj_indexer := cai,
                  m_cell_size := GPUArray_uint (Index3D_getNumElements ci),
                  m_cell_adj := GPUArray_uint (Index2D_getNumElements cai),
                  m_xyzf := GPUArray_Scalar4 (Index2D_getNumElements cli),
                  m_tdb := (if m_compute_tdb s then GPUArray_Scalar4 (Index2D_getNumElements cli)
                            else []) \<rparr>))"

text \<open>
  The effect of one pass through the loop body on a particle that passed the NaN and the
  range checks, with the store at the slot index written out, and the run of such passes
  over a list of particles. They are used in the proofs only.
\<close>

definition bin_step :: "nat \<Rightarrow> nat \<Rightarrow> Particle \<Rightarrow> CellList \<Rightarrow> CellList" where
  "bin_step n bin p s =
     (let offset = m_cell_size s ! bin;
          slot = bin * m_Nmax s + offset
      in (if offset < m_Nmax s
          then s\<lparr> m_xyzf := (m_xyzf s)[slot := record_of s n p],
                  m_tdb := (if m_compute_tdb s
                            then (m_tdb s)[slot := make_scalar4 (int_as_scalar (p_type p))
                                                     (p_diameter p) (int_as_scalar (p_body p)) Scalar_0]
                            else m_tdb s) \<rparr>
          else s\<lparr> m_overflowed := True \<rparr>)
         \<lparr> m_cell_size := (m_cell_size s)[bin := uint (offset + 1)] \<rparr>)"

fun fill :: "(Particle \<Rightarrow> nat) \<Rightarrow> nat \<Rightarrow> Particle list \<Rightarrow> CellList \<Rightarrow> CellList" where
  "fill b n [] s = s"
| "fill b n (p # ps) s = fill b (n + 1) ps (bin_step n (b p) p s)"

section \<open>Properties\<close>

subsection \<open>Rounding\<close>


lemma rne_cases: "rne r = \<lfloor>r\<rfloor> \<or> rne r = \<lfloor>r\<rfloor> + 1"
  by (simp add: rne_def Let_def)

lemma rne_of_int [simp]: "rne (of_int k) = k"
  by (simp add: rne_def)

lemma rne_error: "\<bar>of_int (rne r) - r\<bar> \<le> 1 / 2"
proof -
  have "of_int \<lfloor>r\<rfloor> \<le> r" "r < of_int \<lfloor>r\<rfloor> + 1" by linarith+
  then show ?thesis by (auto simp: rne_def Let_def)
qed

lemma rne_mono: "r \<le> s \<Longrightarrow> rne r \<le> rne s"
proof -
  assume rs: "r \<le> s"
  have fl: "\<lfloor>r\<rfloor> \<le> \<lfloor>s\<rfloor>" using rs by (rule floor_mono)
  show ?thesis
  proof (cases "\<lfloor>r\<rfloor> = \<lfloor>s\<rfloor>")
    case True
    then show ?thesis using rs by (auto simp: rne_def Let_def)
  next
    case False
    then have "\<lfloor>r\<rfloor> + 1 \<le> \<lfloor>s\<rfloor>" using fl by simp
    moreover have "rne r \<le> \<lfloor>r\<rfloor> + 1" using rne_cases [of r] by auto
    moreover have "\<lfloor>s\<rfloor> \<le> rne s" using rne_cases [of s] by auto
    ultimately show ?thesis by linarith
  qed
qed

lemma rne_minus: "rne (- r) = - rne r"
proof (cases "r = of_int \<lfloor>r\<rfloor>")
  case True
  then obtain k where "r = of_int k" ..
  then have "- r = of_int (- k)" by simp
  then show ?thesis unfolding \<open>r = of_int k\<close> by (simp only: rne_of_int)
next
  case False
  then have lt: "of_int \<lfloor>r\<rfloor> < r" "r < of_int \<lfloor>r\<rfloor> + 1" by linarith+
  then have fm: "\<lfloor>- r\<rfloor> = - \<lfloor>r\<rfloor> - 1" by linarith
  show ?thesis using lt by (auto simp: rne_def Let_def fm)
qed

lemma rne_0 [simp]: "rne 0 = 0"
  using rne_of_int [of 0] by simp

lemma rne_nonneg: "0 \<le> r \<Longrightarrow> 0 \<le> rne r"
  using rne_mono [of 0 r] by simp

text \<open>The exponent.\<close>

lemma two_powi_pos [simp]: "0 < (2::real) powi k"
  by (simp add: zero_less_power_int)

lemma two_powi_Suc: "(2::real) powi (k + 1) = 2 * 2 powi k"
  by (simp add: power_int_add)

lemma two_powi_pred: "(2::real) powi (k - 1) = 2 powi k / 2"
  by (simp add: power_int_diff)

lemma two_powi_mono: "j \<le> k \<Longrightarrow> (2::real) powi j \<le> 2 powi k"
  by (rule power_int_increasing) simp_all

lemma two_powi_strict: "j < k \<Longrightarrow> (2::real) powi j < 2 powi k"
  by (rule power_int_strict_increasing) simp_all

lemma two_powi_less_iff: "(2::real) powi j < 2 powi k \<longleftrightarrow> j < k"
proof
  assume l: "(2::real) powi j < 2 powi k"
  show "j < k"
  proof (rule ccontr)
    assume "\<not> j < k"
    then have "(2::real) powi k \<le> 2 powi j" by (intro two_powi_mono) simp
    with l show False by simp
  qed
qed (rule two_powi_strict)

lemma two_powi_le_iff: "(2::real) powi j \<le> 2 powi k \<longleftrightarrow> j \<le> k"
proof
  assume l: "(2::real) powi j \<le> 2 powi k"
  show "j \<le> k"
  proof (rule ccontr)
    assume "\<not> j \<le> k"
    then have "(2::real) powi k < 2 powi j" by (intro two_powi_strict) simp
    with l show False by simp
  qed
qed (rule two_powi_mono)

lemma two_powi_add_nat: "(2::real) powi (a + int n) = 2 powi a * 2 ^ n"
  by (simp add: power_int_add)

lemma exponent_of_eq:
  "2 powi e \<le> x \<Longrightarrow> x < 2 powi (e + 1) \<Longrightarrow> \<bar>e\<bar> \<le> int n \<Longrightarrow> exponent_of n x = e"
proof (induction n arbitrary: x e)
  case 0
  then show ?case by simp
next
  case (Suc n)
  consider "1 \<le> e" | "e \<le> - 1" | "e = 0" by linarith
  then show ?case
  proof cases
    case 1
    then have "(2::real) powi 1 \<le> 2 powi e" by (intro two_powi_mono) simp
    then have x2: "2 \<le> x" using Suc.prems(1) by simp
    have "2 powi (e - 1) \<le> x / 2" using Suc.prems(1) by (simp add: two_powi_pred)
    moreover have "x / 2 < 2 powi (e - 1 + 1)" using Suc.prems(2) by (simp add: two_powi_Suc)
    moreover have "\<bar>e - 1\<bar> \<le> int n" using 1 Suc.prems(3) by simp
    ultimately have "exponent_of n (x / 2) = e - 1" by (rule Suc.IH)
    then show ?thesis using x2 by simp
  next
    case 2
    then have "(2::real) powi (e + 1) \<le> 2 powi 0" by (intro two_powi_mono) simp
    then have x1: "x < 1" using Suc.prems(2) by simp
    have "2 powi (e + 1) \<le> 2 * x" using Suc.prems(1) by (simp add: two_powi_Suc)
    moreover have "2 * x < 2 powi (e + 1 + 1)"
      using Suc.prems(2) by (simp only: two_powi_Suc [of "e + 1"])
    moreover have "\<bar>e + 1\<bar> \<le> int n" using 2 Suc.prems(3) by simp
    ultimately have "exponent_of n (2 * x) = e + 1" by (rule Suc.IH)
    then show ?thesis using x1 by simp
  next
    case 3
    then show ?thesis using Suc.prems by simp
  qed
qed

lemma exponent_of_small:
  "0 \<le> x \<Longrightarrow> x < 2 powi (- int n) \<Longrightarrow> exponent_of n x = - int n"
proof (induction n arbitrary: x)
  case 0
  then show ?case by simp
next
  case (Suc n)
  have "(2::real) powi (- int (Suc n)) \<le> 2 powi 0" by (intro two_powi_mono) simp
  then have x1: "x < 1" using Suc.prems(2) by simp
  have "- int n = - int (Suc n) + 1" by simp
  then have "(2::real) powi (- int n) = 2 * 2 powi (- int (Suc n))"
    by (simp only: two_powi_Suc)
  then have "2 * x < 2 powi (- int n)" using Suc.prems(2) by simp
  then have "exponent_of n (2 * x) = - int n" using Suc.prems(1) by (intro Suc.IH) simp_all
  then show ?case using x1 by simp
qed

lemma exponent_of_large:
  "2 powi (int n) \<le> x \<Longrightarrow> exponent_of n x = int n"
proof (induction n arbitrary: x)
  case 0
  then show ?case by simp
next
  case (Suc n)
  have "(2::real) powi 1 \<le> 2 powi (int (Suc n))" by (intro two_powi_mono) simp
  then have x2: "2 \<le> x" using Suc.prems by simp
  have "int (Suc n) = int n + 1" by simp
  then have "(2::real) powi (int (Suc n)) = 2 * 2 powi (int n)"
    by (simp only: two_powi_Suc)
  then have "2 powi (int n) \<le> x / 2" using Suc.prems by simp
  then have "exponent_of n (x / 2) = int n" by (rule Suc.IH)
  then show ?case using x2 by simp
qed

lemma floor_log2_bounds:
  assumes "0 < (x::real)"
  shows "2 powi \<lfloor>log 2 x\<rfloor> \<le> x" "x < 2 powi (\<lfloor>log 2 x\<rfloor> + 1)"
proof -
  have "2 powr real_of_int \<lfloor>log 2 x\<rfloor> \<le> x \<and> x < 2 powr real_of_int (\<lfloor>log 2 x\<rfloor> + 1)"
    using floor_log_eq_powr_iff [of x 2 "\<lfloor>log 2 x\<rfloor>"] assms by simp
  then show "2 powi \<lfloor>log 2 x\<rfloor> \<le> x" "x < 2 powi (\<lfloor>log 2 x\<rfloor> + 1)"
    by (simp_all only: powr_real_of_int' [of 2, simplified])
qed

lemma quantum_cexp: "quantum x = 2 powi (cexp x - 23)"
  by (simp add: quantum_def)

lemma cexp_eq:
  assumes "2 powi e \<le> \<bar>x\<bar>" "\<bar>x\<bar> < 2 powi (e + 1)" "- 126 \<le> e" "e \<le> 127"
  shows "cexp x = e"
proof -
  have "exponent_of 128 \<bar>x\<bar> = e" using assms by (intro exponent_of_eq) simp_all
  then show ?thesis using assms(3) by (simp add: cexp_def)
qed

lemma cexp_subnormal:
  assumes "\<bar>x\<bar> < 2 powi (- 126)"
  shows "cexp x = - 126"
proof (cases "\<bar>x\<bar> < 2 powi (- 128)")
  case True
  then have "exponent_of 128 \<bar>x\<bar> = - int 128" by (intro exponent_of_small) simp_all
  then show ?thesis by (simp add: cexp_def)
next
  case False
  then have pos: "0 < \<bar>x\<bar>" using two_powi_pos [of "- 128"] by linarith
  define e where "e = \<lfloor>log 2 \<bar>x\<bar>\<rfloor>"
  have b: "2 powi e \<le> \<bar>x\<bar>" "\<bar>x\<bar> < 2 powi (e + 1)"
    unfolding e_def using floor_log2_bounds [OF pos] by simp_all
  have "2 powi e < (2::real) powi (- 126)" using b(1) assms by linarith
  then have e1: "e < - 126" by (simp only: two_powi_less_iff)
  have "(2::real) powi (- 128) < 2 powi (e + 1)" using b(2) False by linarith
  then have e2: "- 128 < e + 1" by (simp only: two_powi_less_iff)
  have "exponent_of 128 \<bar>x\<bar> = e" using b e1 e2 by (intro exponent_of_eq) simp_all
  then show ?thesis using e1 by (simp add: cexp_def)
qed

lemma cexp_ge: "- 126 \<le> cexp x"
  by (simp add: cexp_def)

lemma cexp_upper:
  assumes "\<bar>x\<bar> < 2 ^ 128"
  shows "\<bar>x\<bar> < 2 powi (cexp x + 1)"
proof (cases "\<bar>x\<bar> < 2 powi (- 126)")
  case True
  have "(2::real) powi (- 126) \<le> 2 powi (- 126 + 1)" by (intro two_powi_mono) simp
  then show ?thesis using True by (simp add: cexp_subnormal [OF True])
next
  case False
  then have pos: "0 < \<bar>x\<bar>" using two_powi_pos [of "- 126"] by linarith
  define e where "e = \<lfloor>log 2 \<bar>x\<bar>\<rfloor>"
  have b: "2 powi e \<le> \<bar>x\<bar>" "\<bar>x\<bar> < 2 powi (e + 1)"
    unfolding e_def using floor_log2_bounds [OF pos] by simp_all
  have "(2::real) powi (- 126) < 2 powi (e + 1)" using b(2) False by linarith
  then have "- 126 < e + 1" by (simp only: two_powi_less_iff)
  then have e1: "- 126 \<le> e" by simp
  have "(2::real) ^ 128 = 2 powi 128" by simp
  then have "2 powi e < (2::real) powi 128" using b(1) assms by linarith
  then have "e < 128" by (simp only: two_powi_less_iff)
  then have e2: "e \<le> 127" by simp
  have "cexp x = e" using b e1 e2 by (rule cexp_eq)
  then show ?thesis using b(2) by simp
qed

lemma cexp_lower:
  assumes "- 126 < cexp x" "\<bar>x\<bar> < 2 ^ 128"
  shows "2 powi (cexp x) \<le> \<bar>x\<bar>"
proof -
  have nsub: "\<not> \<bar>x\<bar> < 2 powi (- 126)" using assms(1) cexp_subnormal [of x] by auto
  then have pos: "0 < \<bar>x\<bar>" using two_powi_pos [of "- 126"] by linarith
  define e where "e = \<lfloor>log 2 \<bar>x\<bar>\<rfloor>"
  have b: "2 powi e \<le> \<bar>x\<bar>" "\<bar>x\<bar> < 2 powi (e + 1)"
    unfolding e_def using floor_log2_bounds [OF pos] by simp_all
  have "(2::real) powi (- 126) < 2 powi (e + 1)" using b(2) nsub by linarith
  then have "- 126 < e + 1" by (simp only: two_powi_less_iff)
  then have e1: "- 126 \<le> e" by simp
  have "(2::real) ^ 128 = 2 powi 128" by simp
  then have "2 powi e < (2::real) powi 128" using b(1) assms by linarith
  then have "e < 128" by (simp only: two_powi_less_iff)
  then have e2: "e \<le> 127" by simp
  have "cexp x = e" using b e1 e2 by (rule cexp_eq)
  then show ?thesis using b(1) by simp
qed

lemma cexp_normal:
  assumes "2 powi (- 126) \<le> \<bar>x\<bar>" "\<bar>x\<bar> < 2 ^ 128"
  shows "2 powi (cexp x) \<le> \<bar>x\<bar>"
proof (cases "- 126 < cexp x")
  case True
  then show ?thesis using assms(2) by (rule cexp_lower)
next
  case False
  then have "cexp x = - 126" using cexp_ge [of x] by simp
  then show ?thesis using assms(1) by simp
qed

lemma cexp_mono:
  assumes "\<bar>x\<bar> \<le> \<bar>y\<bar>" "\<bar>y\<bar> < 2 ^ 128"
  shows "cexp x \<le> cexp y"
proof (cases "- 126 < cexp x")
  case False
  then show ?thesis using cexp_ge [of x] cexp_ge [of y] by simp
next
  case True
  have "2 powi (cexp x) \<le> \<bar>x\<bar>" using True assms by (intro cexp_lower) simp_all
  also have "\<dots> \<le> \<bar>y\<bar>" by (rule assms(1))
  also have "\<dots> < 2 powi (cexp y + 1)" using assms(2) by (rule cexp_upper)
  finally have "cexp x < cexp y + 1" by (simp only: two_powi_less_iff)
  then show ?thesis by simp
qed

lemma cexp_minus [simp]: "cexp (- x) = cexp x"
  by (simp add: cexp_def)

lemma quantum_minus [simp]: "quantum (- x) = quantum x"
  by (simp add: quantum_def)

lemma quantum_pos [simp]: "0 < quantum x"
  by (simp add: quantum_def)

lemma quantum_nonneg [simp]: "0 \<le> quantum x"
  using quantum_pos [of x] by (rule less_imp_le)

text \<open>Rounding is odd, monotone, and exact on the binary32 numbers.\<close>

lemma rnd_minus: "rnd (- x) = - rnd x"
  by (simp add: rnd_def rne_minus)

lemma rnd_0 [simp]: "rnd 0 = 0"
  by (simp add: rnd_def)

lemma rnd_nonneg: "0 \<le> x \<Longrightarrow> 0 \<le> rnd x"
proof -
  assume x: "0 \<le> x"
  then have "0 \<le> x / quantum x" by simp
  then have "0 \<le> rne (x / quantum x)" by (rule rne_nonneg)
  then have "0 \<le> real_of_int (rne (x / quantum x)) * quantum x" by simp
  then show ?thesis using x by (simp add: rnd_def)
qed

lemma rnd_eval:
  assumes "2 powi e \<le> \<bar>x\<bar>" "\<bar>x\<bar> < 2 powi (e + 1)" "- 126 \<le> e" "e \<le> 127"
  shows "rnd x = of_int (rne (x / 2 powi (e - 23))) * 2 powi (e - 23)"
proof -
  have "(2::real) powi (e + 1) \<le> 2 powi 128" using assms(4) by (intro two_powi_mono) simp
  then have "\<bar>x\<bar> < 2 ^ 128" using assms(2) by simp
  moreover have "cexp x = e" using assms by (rule cexp_eq)
  ultimately show ?thesis by (simp add: rnd_def quantum_cexp)
qed

lemma rnd_upper:
  assumes "0 \<le> x" "x < 2 ^ 128"
  shows "rnd x \<le> 2 powi (cexp x + 1)"
proof -
  have ub: "x < 2 powi (cexp x + 1)" using cexp_upper [of x] assms by simp
  have "cexp x + 1 = (cexp x - 23) + int 24" by simp
  then have sp: "(2::real) powi (cexp x + 1) = quantum x * 2 ^ 24"
    by (simp only: quantum_cexp two_powi_add_nat)
  have "x / quantum x \<le> 2 ^ 24" using ub by (simp add: sp pos_divide_le_eq mult.commute)
  then have "rne (x / quantum x) \<le> rne (of_int (2 ^ 24))" by (intro rne_mono) simp
  then have "rne (x / quantum x) \<le> 2 ^ 24" by (simp only: rne_of_int)
  then have "real_of_int (rne (x / quantum x)) \<le> 2 ^ 24"
    by (metis of_int_le_iff of_int_numeral of_int_power)
  then have "real_of_int (rne (x / quantum x)) * quantum x \<le> 2 ^ 24 * quantum x"
    by (intro mult_right_mono) simp_all
  then show ?thesis using assms by (simp add: rnd_def sp mult.commute)
qed

lemma rnd_lower:
  assumes "0 \<le> x" "x < 2 ^ 128" "2 powi (cexp x) \<le> x"
  shows "2 powi (cexp x) \<le> rnd x"
proof -
  have "cexp x = (cexp x - 23) + int 23" by simp
  then have sp: "(2::real) powi (cexp x) = quantum x * 2 ^ 23"
    by (metis quantum_cexp two_powi_add_nat)
  have "2 ^ 23 \<le> x / quantum x" using assms(3) by (simp add: sp pos_le_divide_eq mult.commute)
  then have "rne (of_int (2 ^ 23)) \<le> rne (x / quantum x)" by (intro rne_mono) simp
  then have "2 ^ 23 \<le> rne (x / quantum x)" by (simp only: rne_of_int)
  then have "2 ^ 23 \<le> real_of_int (rne (x / quantum x))"
    by (metis of_int_le_iff of_int_numeral of_int_power)
  then have "2 ^ 23 * quantum x \<le> real_of_int (rne (x / quantum x)) * quantum x"
    by (intro mult_right_mono) simp_all
  then show ?thesis using assms by (simp add: rnd_def sp mult.commute)
qed

lemma rnd_mono_nonneg:
  assumes "0 \<le> x" "x \<le> y"
  shows "rnd x \<le> rnd y"
proof (cases "y < 2 ^ 128")
  case False
  then have ry: "rnd y = y" using assms by (simp add: rnd_def)
  show ?thesis
  proof (cases "x < 2 ^ 128")
    case False
    then show ?thesis using assms ry by (simp add: rnd_def)
  next
    case True
    have "rnd x \<le> 2 powi (cexp x + 1)" using assms(1) True by (rule rnd_upper)
    also have "\<dots> \<le> 2 powi 128"
    proof -
      have "cexp x \<le> 127"
      proof (rule ccontr)
        assume "\<not> cexp x \<le> 127"
        then have c: "128 \<le> cexp x" by simp
        then have "- 126 < cexp x" by simp
        then have "2 powi (cexp x) \<le> \<bar>x\<bar>" using True assms by (intro cexp_lower) simp_all
        moreover have "(2::real) powi 128 \<le> 2 powi (cexp x)" using c by (rule two_powi_mono)
        ultimately show False using True assms by simp
      qed
      then show ?thesis by (intro two_powi_mono) simp
    qed
    finally show ?thesis using False ry by simp
  qed
next
  case True
  then have xb: "x < 2 ^ 128" using assms by simp
  have y0: "0 \<le> y" using assms by simp
  have ce: "cexp x \<le> cexp y" using assms True by (intro cexp_mono) simp_all
  show ?thesis
  proof (cases "cexp x = cexp y")
    case True
    then have q: "quantum x = quantum y" by (simp add: quantum_cexp)
    have "x / quantum y \<le> y / quantum y" using assms by (simp add: divide_right_mono)
    then have "rne (x / quantum y) \<le> rne (y / quantum y)" by (rule rne_mono)
    then have "real_of_int (rne (x / quantum y)) * quantum y \<le>
               real_of_int (rne (y / quantum y)) * quantum y"
      by (intro mult_right_mono) simp_all
    then show ?thesis using xb \<open>y < 2 ^ 128\<close> assms y0 by (simp add: rnd_def q)
  next
    case False
    then have lt: "cexp x + 1 \<le> cexp y" using ce by simp
    then have "- 126 < cexp y" using cexp_ge [of x] by simp
    then have "2 powi (cexp y) \<le> \<bar>y\<bar>" using True y0 by (intro cexp_lower) simp_all
    then have ly: "2 powi (cexp y) \<le> y" using y0 by simp
    have "rnd x \<le> 2 powi (cexp x + 1)" using assms(1) xb by (rule rnd_upper)
    also have "\<dots> \<le> 2 powi (cexp y)" using lt by (rule two_powi_mono)
    also have "\<dots> \<le> rnd y" using y0 True ly by (rule rnd_lower)
    finally show ?thesis .
  qed
qed

lemma rnd_mono: "x \<le> y \<Longrightarrow> rnd x \<le> rnd y"
proof -
  assume xy: "x \<le> y"
  consider "0 \<le> x" | "x < 0" "0 \<le> y" | "y < 0" using xy by linarith
  then show ?thesis
  proof cases
    case 1
    then show ?thesis using xy by (rule rnd_mono_nonneg)
  next
    case 2
    have "0 \<le> rnd (- x)" using 2 by (intro rnd_nonneg) simp
    then have "rnd x \<le> 0" by (simp add: rnd_minus)
    moreover have "0 \<le> rnd y" using 2 by (intro rnd_nonneg)
    ultimately show ?thesis by simp
  next
    case 3
    have "rnd (- y) \<le> rnd (- x)" using 3 xy by (intro rnd_mono_nonneg) simp_all
    then show ?thesis by (simp add: rnd_minus)
  qed
qed

lemma rnd_id:
  assumes m: "\<bar>m\<bar> < 2 ^ 24" and k: "- 149 \<le> k" and x: "x = of_int m * 2 powi k"
    and fin: "\<bar>x\<bar> < 2 ^ 128"
  shows "rnd x = x"
proof -
  define j where "j = cexp x - 23"
  have le: "j \<le> k"
  proof (cases "- 126 < cexp x")
    case False
    then show ?thesis using k cexp_ge [of x] by (simp add: j_def)
  next
    case True
    then have "2 powi (cexp x) \<le> \<bar>x\<bar>" using fin by (rule cexp_lower)
    also have "\<bar>x\<bar> = \<bar>of_int m\<bar> * 2 powi k" by (simp add: x abs_mult)
    also have "\<dots> < 2 ^ 24 * 2 powi k"
    proof -
      have "\<bar>real_of_int m\<bar> < 2 ^ 24"
        using m by (metis of_int_abs of_int_less_iff of_int_numeral of_int_power)
      then show ?thesis by (intro mult_strict_right_mono) simp_all
    qed
    also have "\<dots> = 2 powi (k + 24)" by (simp add: power_int_add)
    finally have "cexp x < k + 24" by (simp only: two_powi_less_iff)
    then show ?thesis by (simp add: j_def)
  qed
  have q: "quantum x = 2 powi j" by (simp add: quantum_cexp j_def)
  have "k = j + int (nat (k - j))" using le by simp
  then have "(2::real) powi k = 2 powi j * 2 ^ nat (k - j)"
    by (metis power_int_add power_int_of_nat zero_neq_numeral)
  then have xq: "x = of_int (m * 2 ^ nat (k - j)) * 2 powi j" by (simp add: x)
  have "x / quantum x = of_int (m * 2 ^ nat (k - j))"
    unfolding q by (subst xq) simp
  then have "rne (x / quantum x) = m * 2 ^ nat (k - j)" by (simp only: rne_of_int)
  then have "of_int (rne (x / quantum x)) * quantum x = x"
    unfolding q using xq by simp
  then show ?thesis using fin by (simp add: rnd_def)
qed

lemma rnd_of_int:
  assumes "\<bar>m\<bar> \<le> 2 ^ 24"
  shows "rnd (of_int m) = of_int m"
proof (cases "\<bar>m\<bar> = 2 ^ 24")
  case False
  then have "\<bar>m\<bar> < 2 ^ 24" using assms by simp
  then have b: "\<bar>real_of_int m\<bar> < 2 ^ 24"
    by (metis of_int_abs of_int_less_iff of_int_numeral of_int_power)
  have "(2::real) ^ 24 < 2 ^ 128" by simp
  with b have "\<bar>real_of_int m\<bar> < 2 ^ 128" by linarith
  then show ?thesis using \<open>\<bar>m\<bar> < 2 ^ 24\<close> by (intro rnd_id [of m 0]) simp_all
next
  case True
  then consider "m = 2 ^ 24" | "m = - (2 ^ 24)" by (auto simp: abs_if split: if_splits)
  then show ?thesis
  proof cases
    case 1
    have "rnd (of_int 1 * 2 powi 24) = of_int 1 * 2 powi 24"
      by (rule rnd_id [of 1 24]) simp_all
    then show ?thesis using 1 by simp
  next
    case 2
    have "rnd (of_int (- 1) * 2 powi 24) = of_int (- 1) * 2 powi 24"
      by (rule rnd_id [of "- 1" 24]) simp_all
    then show ?thesis using 2 by simp
  qed
qed

lemma rnd_of_nat: "n \<le> 2 ^ 24 \<Longrightarrow> rnd (real n) = real n"
  using rnd_of_int [of "int n"] by simp

lemma rnd_half_int:
  assumes "\<bar>m\<bar> < 2 ^ 24"
  shows "rnd (of_int m / 2) = of_int m / 2"
proof -
  have b: "\<bar>real_of_int m\<bar> < 2 ^ 24"
    using assms by (metis of_int_abs of_int_less_iff of_int_numeral of_int_power)
  have "(2::real) ^ 24 < 2 ^ 128" by simp
  with b have "\<bar>real_of_int m\<bar> < 2 ^ 128" by linarith
  then have "\<bar>real_of_int m / 2\<bar> < 2 ^ 128" by simp
  then show ?thesis using assms by (intro rnd_id [of m "- 1"]) simp_all
qed

text \<open>The relative error in the normal range is at most \<open>2\<^sup>-\<^sup>2\<^sup>4\<close>.\<close>

lemma rnd_abs_error: "\<bar>rnd x - x\<bar> \<le> quantum x / 2"
proof (cases "2 ^ 128 \<le> \<bar>x\<bar>")
  case True
  then show ?thesis by (simp add: rnd_def)
next
  case False
  have "\<bar>of_int (rne (x / quantum x)) - x / quantum x\<bar> \<le> 1 / 2" by (rule rne_error)
  then have "\<bar>of_int (rne (x / quantum x)) - x / quantum x\<bar> * quantum x \<le> 1 / 2 * quantum x"
    by (intro mult_right_mono) simp_all
  moreover have "\<bar>of_int (rne (x / quantum x)) - x / quantum x\<bar> * quantum x =
        \<bar>of_int (rne (x / quantum x)) * quantum x - x\<bar>"
  proof -
    have "\<bar>of_int (rne (x / quantum x)) - x / quantum x\<bar> * quantum x =
          \<bar>(of_int (rne (x / quantum x)) - x / quantum x) * quantum x\<bar>"
      by (simp add: abs_mult)
    also have "(of_int (rne (x / quantum x)) - x / quantum x) * quantum x =
          of_int (rne (x / quantum x)) * quantum x - x"
    proof -
      have "quantum x \<noteq> 0" by (simp add: quantum_def)
      then show ?thesis by (simp add: left_diff_distrib)
    qed
    finally show ?thesis .
  qed
  ultimately show ?thesis using False by (simp add: rnd_def)
qed

lemma rnd_rel_error:
  assumes "2 powi (- 126) \<le> \<bar>x\<bar>"
  shows "\<bar>rnd x - x\<bar> \<le> \<bar>x\<bar> / 2 ^ 24"
proof (cases "2 ^ 128 \<le> \<bar>x\<bar>")
  case True
  then show ?thesis by (simp add: rnd_def)
next
  case False
  then have fin: "\<bar>x\<bar> < 2 ^ 128" by simp
  have "2 powi (cexp x) \<le> \<bar>x\<bar>" using assms fin by (rule cexp_normal)
  moreover have "(2::real) powi (cexp x) = quantum x * 2 ^ 23"
  proof -
    have "cexp x = (cexp x - 23) + int 23" by simp
    then show ?thesis by (metis quantum_cexp two_powi_add_nat)
  qed
  ultimately have "quantum x * 2 ^ 23 \<le> \<bar>x\<bar>" by simp
  then have "quantum x / 2 \<le> \<bar>x\<bar> / 2 ^ 24" by simp
  then show ?thesis using rnd_abs_error [of x] by linarith
qed

lemma rnd_bounds:
  assumes "2 powi (- 126) \<le> x"
  shows "x * (1 - 1 / 2 ^ 24) \<le> rnd x" "rnd x \<le> x * (1 + 1 / 2 ^ 24)"
proof -
  have x0: "0 < x" using assms two_powi_pos [of "- 126"] by linarith
  then have "2 powi (- 126) \<le> \<bar>x\<bar>" using assms by simp
  then have "\<bar>rnd x - x\<bar> \<le> \<bar>x\<bar> / 2 ^ 24" by (rule rnd_rel_error)
  then have e: "\<bar>rnd x - x\<bar> \<le> x / 2 ^ 24" using x0 by simp
  have "x * (1 - 1 / 2 ^ 24) = x - x / 2 ^ 24" by (simp add: right_diff_distrib)
  then show "x * (1 - 1 / 2 ^ 24) \<le> rnd x" using e by linarith
  have "x * (1 + 1 / 2 ^ 24) = x + x / 2 ^ 24" by (simp add: distrib_left)
  then show "rnd x \<le> x * (1 + 1 / 2 ^ 24)" using e by linarith
qed


text \<open>
  The scale factor \<open>sc\<close> that \<^verbatim>\<open>computeCellList\<close> derives from the width of \<open>d\<close> cells on
  an extent \<open>L\<close>: two divisions, each with a relative error of at most \<open>2\<^sup>-\<^sup>2\<^sup>4\<close>.
\<close>

lemma scale_bounds:
  fixes L :: real and d :: nat
  assumes d: "1 \<le> d" "d \<le> 2 ^ 21" and L: "2 powi (- 100) \<le> L" "L \<le> 2 ^ 100"
    and w: "w = rnd (L / rnd (real d))" and sc: "sc = rnd (1 / w)"
  shows "0 < sc" "(L * sc) * (1 - 1 / 2 ^ 24) \<le> (1 + 1 / 2 ^ 24) * real d"
    "(1 - 1 / 2 ^ 24) * real d \<le> (L * sc) * (1 + 1 / 2 ^ 24)"
proof -
  define D where "D = real d"
  define \<delta> :: real where "\<delta> = 1 / 2 ^ 24"
  have d24: "d \<le> 2 ^ 24" using d(2) by (rule order_trans) simp
  have rD: "rnd (real d) = D" unfolding D_def using d24 by (rule rnd_of_nat)
  have D1: "1 \<le> D" using d(1) by (simp add: D_def)
  have D21: "D \<le> 2 ^ 21" using d(2) unfolding D_def
    by (metis of_nat_le_iff of_nat_numeral of_nat_power)
  have L0: "0 < L" using L(1) two_powi_pos [of "- 100"] by linarith
  define a where "a = L / D"
  have aD: "a * D = L" using D1 by (simp add: a_def)
  have a_lo: "2 powi (- 126) \<le> a"
  proof -
    have "(2::real) powi (- 126) * 2 ^ 21 \<le> 2 powi (- 100)" by simp
    then have "2 powi (- 126) * D \<le> L" using D21 L(1)
      by (meson dual_order.trans mult_left_mono two_powi_pos less_imp_le)
    then show ?thesis using D1 by (simp add: a_def pos_le_divide_eq)
  qed
  have a0: "0 < a" using L0 D1 by (simp add: a_def)
  have a_hi: "a \<le> 2 ^ 100"
  proof -
    have "L \<le> L * D" using L0 D1 by simp
    then have "a \<le> L" using D1 by (simp add: a_def pos_divide_le_eq)
    then show ?thesis using L(2) by linarith
  qed
  have wa: "w = rnd a" by (simp add: w rD a_def)
  have w_lo: "a * (1 - \<delta>) \<le> w" and w_hi: "w \<le> a * (1 + \<delta>)"
    unfolding wa \<delta>_def using a_lo by (rule rnd_bounds)+
  have \<delta>: "0 < \<delta>" "\<delta> < 1 / 2" by (simp_all add: \<delta>_def)
  have w0: "0 < w"
  proof -
    have "0 < a * (1 - \<delta>)" using a0 \<delta> by simp
    then show ?thesis using w_lo by linarith
  qed
  define b where "b = 1 / w"
  have bw: "b * w = 1" using w0 by (simp add: b_def)
  have b0: "0 < b" using w0 by (simp add: b_def)
  have b_lo: "2 powi (- 126) \<le> b"
  proof -
    have "w \<le> 2 ^ 100 * (1 + \<delta>)" using w_hi a_hi \<delta>
      by (meson add_nonneg_nonneg less_imp_le mult_right_mono order_trans zero_le_one)
    also have "\<dots> \<le> 2 ^ 100 * 2" using \<delta> by simp
    finally have "w \<le> 2 ^ 101" by simp
    then have "1 / 2 ^ 101 \<le> 1 / w" using w0 by (simp add: frac_le)
    moreover have "(2::real) powi (- 126) \<le> 1 / 2 ^ 101" by simp
    ultimately show ?thesis by (simp add: b_def)
  qed
  have s_lo: "b * (1 - \<delta>) \<le> sc" and s_hi: "sc \<le> b * (1 + \<delta>)"
    unfolding sc b_def [symmetric] \<delta>_def using b_lo by (rule rnd_bounds)+
  show sc0: "0 < sc"
  proof -
    have "0 < b * (1 - \<delta>)" using b0 \<delta> by simp
    then show ?thesis using s_lo by linarith
  qed
  have scw_hi: "sc * w \<le> 1 + \<delta>"
  proof -
    have "sc * w \<le> b * (1 + \<delta>) * w" using s_hi w0 by (simp add: mult_right_mono)
    also have "\<dots> = (b * w) * (1 + \<delta>)" by (simp add: mult_ac)
    finally show ?thesis by (simp add: bw)
  qed
  have scw_lo: "1 - \<delta> \<le> sc * w"
  proof -
    have "b * (1 - \<delta>) * w \<le> sc * w" using s_lo w0 by (simp add: mult_right_mono)
    moreover have "b * (1 - \<delta>) * w = (b * w) * (1 - \<delta>)" by (simp add: mult_ac)
    ultimately show ?thesis by (simp add: bw)
  qed
  have wD_lo: "L * (1 - \<delta>) \<le> w * D"
  proof -
    have "a * (1 - \<delta>) * D \<le> w * D" using w_lo D1 by (simp add: mult_right_mono)
    moreover have "a * (1 - \<delta>) * D = (a * D) * (1 - \<delta>)" by (simp add: mult_ac)
    ultimately show ?thesis by (simp add: aD)
  qed
  have wD_hi: "w * D \<le> L * (1 + \<delta>)"
  proof -
    have "w * D \<le> a * (1 + \<delta>) * D" using w_hi D1 by (simp add: mult_right_mono)
    also have "\<dots> = (a * D) * (1 + \<delta>)" by (simp add: mult_ac)
    finally show ?thesis by (simp add: aD)
  qed
  have "(L * sc) * (1 - \<delta>) = sc * (L * (1 - \<delta>))" by (simp add: mult_ac)
  also have "\<dots> \<le> sc * (w * D)" using wD_lo sc0 by (simp add: mult_left_mono)
  also have "\<dots> = (sc * w) * D" by (simp add: mult_ac)
  also have "\<dots> \<le> (1 + \<delta>) * D" using scw_hi D1 by (simp add: mult_right_mono)
  finally show "(L * sc) * (1 - 1 / 2 ^ 24) \<le> (1 + 1 / 2 ^ 24) * real d"
    by (simp only: \<delta>_def D_def)
  have "(1 - \<delta>) * D \<le> (sc * w) * D" using scw_lo D1 by (simp add: mult_right_mono)
  also have "\<dots> = sc * (w * D)" by (simp add: mult_ac)
  also have "\<dots> \<le> sc * (L * (1 + \<delta>))" using wD_hi sc0 by (simp add: mult_left_mono)
  also have "\<dots> = (L * sc) * (1 + \<delta>)" by (simp add: mult_ac)
  finally show "(1 - 1 / 2 ^ 24) * real d \<le> (L * sc) * (1 + 1 / 2 ^ 24)"
    by (simp only: \<delta>_def D_def)
qed

text \<open>Up to \<open>2\<^sup>2\<^sup>1\<close> cells the scaled extent is within half a cell of the cell count.\<close>

lemma scaled_extent:
  fixes L :: real and d :: nat
  assumes d: "1 \<le> d" "d \<le> 2 ^ 21" and L: "2 powi (- 100) \<le> L" "L \<le> 2 ^ 100"
    and w: "w = rnd (L / rnd (real d))" and sc: "sc = rnd (1 / w)"
  shows "0 \<le> sc" "real d - 1 / 2 \<le> rnd (L * sc)" "rnd (L * sc) \<le> real d + 1 / 2"
proof -
  define D where "D = real d"
  define \<delta> :: real where "\<delta> = 1 / 2 ^ 24"
  note sb = scale_bounds [OF d L w sc, folded \<delta>_def D_def]
  have \<delta>: "0 < \<delta>" "\<delta> < 1 / 2" by (simp_all add: \<delta>_def)
  have D1: "1 \<le> D" using d(1) by (simp add: D_def)
  have D21: "D \<le> 2 ^ 21" using d(2) unfolding D_def
    by (metis of_nat_le_iff of_nat_numeral of_nat_power)
  show "0 \<le> sc" using sb(1) by simp
  have D\<delta>: "2 * D * \<delta> \<le> 1 / 4"
  proof -
    have "2 * D * \<delta> \<le> 2 * 2 ^ 21 * \<delta>" using D21 \<delta> by simp
    then show ?thesis by (simp add: \<delta>_def)
  qed
  have up: "L * sc \<le> D + 1 / 2"
  proof -
    note sb(2)
    also have "(1 + \<delta>) * D \<le> (D + 1 / 2) * (1 - \<delta>)"
    proof -
      have "(D + 1 / 2) * (1 - \<delta>) - (1 + \<delta>) * D = 1 / 2 - \<delta> / 2 - 2 * D * \<delta>"
        by (simp add: algebra_simps diff_divide_distrib)
      moreover have "0 \<le> 1 / 2 - \<delta> / 2 - 2 * D * \<delta>" using D\<delta> \<delta> by linarith
      ultimately show ?thesis by linarith
    qed
    finally have "(L * sc) * (1 - \<delta>) \<le> (D + 1 / 2) * (1 - \<delta>)" .
    moreover have "0 < 1 - \<delta>" using \<delta> by simp
    ultimately show ?thesis by (simp only: mult_le_cancel_right_pos)
  qed
  have low: "D - 1 / 2 \<le> L * sc"
  proof -
    have "(D - 1 / 2) * (1 + \<delta>) \<le> (1 - \<delta>) * D"
    proof -
      have "(1 - \<delta>) * D - (D - 1 / 2) * (1 + \<delta>) = 1 / 2 + \<delta> / 2 - 2 * D * \<delta>"
        by (simp add: algebra_simps diff_divide_distrib)
      moreover have "0 \<le> 1 / 2 + \<delta> / 2 - 2 * D * \<delta>" using D\<delta> \<delta> by linarith
      ultimately show ?thesis by linarith
    qed
    also note sb(3)
    finally have "(D - 1 / 2) * (1 + \<delta>) \<le> (L * sc) * (1 + \<delta>)" .
    moreover have "0 < 1 + \<delta>" using \<delta> by simp
    ultimately show ?thesis by (simp only: mult_le_cancel_right_pos)
  qed
  have half: "rnd (D + 1 / 2) = D + 1 / 2" "rnd (D - 1 / 2) = D - 1 / 2"
  proof -
    have "2 * int d + 1 < 2 ^ 24" "2 * int d - 1 < 2 ^ 24" using d(2) by simp_all
    then have m: "\<bar>2 * int d + 1\<bar> < 2 ^ 24" "\<bar>2 * int d - 1\<bar> < 2 ^ 24" using d(1) by simp_all
    have e: "D + 1 / 2 = of_int (2 * int d + 1) / 2" "D - 1 / 2 = of_int (2 * int d - 1) / 2"
      by (simp_all add: D_def add_divide_distrib diff_divide_distrib)
    show "rnd (D + 1 / 2) = D + 1 / 2" unfolding e(1) using m(1) by (rule rnd_half_int)
    show "rnd (D - 1 / 2) = D - 1 / 2" unfolding e(2) using m(2) by (rule rnd_half_int)
  qed
  show "real d - 1 / 2 \<le> rnd (L * sc)"
    using rnd_mono [OF low] unfolding half by (simp only: D_def)
  show "rnd (L * sc) \<le> real d + 1 / 2"
    using rnd_mono [OF up] unfolding half by (simp only: D_def)
qed


subsection \<open>Machine integers and conversions\<close>

lemma uint_id: "n < 2 ^ 32 \<Longrightarrow> uint n = n"
  by (simp add: uint_def)

lemma uint_le: "n \<le> UINT_MAX \<Longrightarrow> uint n = n"
  by (simp add: uint_def UINT_MAX_def)

lemma and_31_eq_mod: "(e::nat) AND 31 = e mod 32"
proof -
  have "(31::nat) = mask 5" by (simp add: mask_eq_exp_minus_1)
  then have "e AND 31 = take_bit 5 e" by (simp add: take_bit_eq_mask)
  then show ?thesis by (simp add: take_bit_eq_mod)
qed

lemma float_to_uint_floor:
  assumes "0 \<le> r" "r < 2 ^ 32"
  shows "float_to_uint r = nat \<lfloor>r\<rfloor>"
proof -
  have f: "0 \<le> \<lfloor>r\<rfloor>" using assms(1) by simp
  have "\<lfloor>r\<rfloor> < 2 ^ 32" using assms(2) by (simp add: floor_less_iff)
  then have "\<lfloor>r\<rfloor> mod 2 ^ 32 = \<lfloor>r\<rfloor>" using f by simp
  then show ?thesis using assms(1) by (simp add: float_to_uint_def int_to_uint_def trunc_def)
qed

lemma float_to_uint_ge_1:
  assumes "1 \<le> r" "r < 2 ^ 32"
  shows "1 \<le> float_to_uint r"
proof -
  have "1 \<le> \<lfloor>r\<rfloor>" using assms(1) by linarith
  moreover have "float_to_uint r = nat \<lfloor>r\<rfloor>" using assms by (intro float_to_uint_floor) simp_all
  ultimately show ?thesis by linarith
qed

lemma float_to_uint_1 [simp]: "float_to_uint 1 = 1"
  by (simp add: float_to_uint_def trunc_def int_to_uint_def)

lemma float_to_uint_half [simp]: "float_to_uint (1 / 2) = 0"
  by (simp add: float_to_uint_def trunc_def int_to_uint_def)

lemma float_to_uint_0 [simp]: "float_to_uint 0 = 0"
  by (simp add: float_to_uint_def trunc_def int_to_uint_def)

text \<open>Binary32 numbers that the examples use.\<close>

lemma rnd_dyadic:
  assumes "\<bar>m\<bar> < 2 ^ 24" "n \<le> 149"
  shows "rnd (of_int m / 2 ^ n) = of_int m / 2 ^ n"
proof -
  have b: "\<bar>real_of_int m\<bar> < 2 ^ 24"
    using assms(1) by (metis of_int_abs of_int_less_iff of_int_numeral of_int_power)
  have "\<bar>real_of_int m / 2 ^ n\<bar> = \<bar>real_of_int m\<bar> / 2 ^ n" by simp
  also have "\<dots> \<le> \<bar>real_of_int m\<bar> / 1"
    by (intro divide_left_mono) simp_all
  also have "\<dots> = \<bar>real_of_int m\<bar>" by simp
  finally have "\<bar>real_of_int m / 2 ^ n\<bar> < 2 ^ 24" using b by linarith
  moreover have "(2::real) ^ 24 < 2 ^ 128" by simp
  ultimately have fin: "\<bar>real_of_int m / 2 ^ n\<bar> < 2 ^ 128" by linarith
  have "real_of_int m / 2 ^ n = of_int m * 2 powi (- int n)"
    by (simp add: power_int_minus field_simps)
  then show ?thesis using assms fin by (intro rnd_id [of m "- int n"]) simp_all
qed

lemma rnd_numeral [simp]: "numeral n \<le> (16777216::nat) \<Longrightarrow> rnd (numeral n) = numeral n"
  using rnd_of_nat [of "numeral n"] by simp

lemma rnd_1 [simp]: "rnd 1 = 1"
  using rnd_of_nat [of 1] by simp

lemma rnd_half [simp]: "rnd (1 / 2) = 1 / 2"
  using rnd_dyadic [of 1 1] by simp

lemma uint_to_float_simps [simp]:
  "uint_to_float 0 = 0" "uint_to_float 1 = 1" "uint_to_float (Suc 0) = 1"
  "numeral n \<le> (16777216::nat) \<Longrightarrow> uint_to_float (numeral n) = numeral n"
  by (simp_all add: uint_to_float_def)

lemma uint_to_float_small: "n \<le> 2 ^ 24 \<Longrightarrow> uint_to_float n = real n"
  by (simp add: uint_to_float_def rnd_of_nat)

lemma fdiv_ge_1:
  assumes "0 < w" "w \<le> e"
  shows "1 \<le> fdiv e w"
proof -
  have "1 \<le> e / w" using assms by simp
  then have "rnd 1 \<le> rnd (e / w)" by (rule rnd_mono)
  then show ?thesis by (simp add: fdiv_def)
qed

text \<open>Stored Scalars that the examples use.\<close>

lemma isnan_simps [simp]:
  "\<not> isnan 0" "\<not> isnan 1065353216" "\<not> isnan 1077936127" "isnan 2143289344"
  by (simp_all add: isnan_def)

lemma num_simps [simp]:
  "num 0 = 0" "num 1065353216 = 1" "num 1077936127 = 3 - 1 / 2 ^ 22"
  by (simp_all add: num_def)

text \<open>A particle at box lo has scaled coordinate 0 whatever the scale factors are.\<close>

lemma find_bin_origin [simp]: "find_bin box_1 (sx, sy, sz) (dx, dy, dz) origin = (0, 0, 0)"
  by (simp add: find_bin_def origin_def particle_at_def box_1_def fsub_def fmul_def)

text \<open>
  A particle at box hi of the unit box has scaled coordinate 1, which is \<open>dim\<close> for a single
  cell: the exception applies.
\<close>

lemma fdiv_1_1 [simp]: "fdiv 1 1 = 1"
  by (simp add: fdiv_def)

lemma find_bin_corner [simp]:
  "find_bin box_1 (1, 1, 1) (1, 1, 1) corner = (0, 0, 0)"
  "find_bin box_1 (1, 1, 1) (Suc 0, Suc 0, Suc 0) corner = (0, 0, 0)"
  by (simp_all add: find_bin_def corner_def particle_at_def box_1_def fsub_def fmul_def)

lemma computeDimensions_3d_unscaled:
  assumes "getNDimensions sys \<noteq> 2"
    and "dx = float_to_uint (fdiv (fsub (xhi (getBox sys)) (xlo (getBox sys))) (m_nominal_width s))"
    and "dy = float_to_uint (fdiv (fsub (yhi (getBox sys)) (ylo (getBox sys))) (m_nominal_width s))"
    and "dz = float_to_uint (fdiv (fsub (zhi (getBox sys)) (zlo (getBox sys))) (m_nominal_width s))"
    and "uint (uint (dx * dy) * dz) \<le> m_max_cells s"
  shows "computeDimensions sys s = (dx, dy, dz)"
  using assms by (simp add: computeDimensions_def Let_def)

lemma index3_bound:
  assumes "i < (w::nat)" "j < h" "k < d"
  shows "(k * h + j) * w + i < w * h * d"
proof -
  have "k * h + j < k * h + h" using assms(2) by simp
  also have "\<dots> = (k + 1) * h" by simp
  also have "\<dots> \<le> d * h" using assms(3) by (intro mult_le_mono1) simp
  finally have kj: "k * h + j + 1 \<le> d * h" by simp
  have "(k * h + j) * w + i < (k * h + j) * w + w" using assms(1) by simp
  also have "\<dots> = (k * h + j + 1) * w" by simp
  also have "\<dots> \<le> (d * h) * w" using kj by (intro mult_le_mono1)
  finally show ?thesis by (simp add: ac_simps)
qed

lemma slot_index_neq:
  assumes "x < (N::nat)" "y < N" "a \<noteq> b \<or> x \<noteq> y"
  shows "a * N + x \<noteq> b * N + y"
proof
  assume e: "a * N + x = b * N + y"
  have "(a * N + x) div N = a" "(b * N + y) div N = b" using assms by simp_all
  then have "a = b" using e by simp
  with e have "x = y" by simp
  with \<open>a = b\<close> assms(3) show False by simp
qed

subsection \<open>Bucket capacity\<close>

text \<open>
  Away from the top of the \<^verbatim>\<open>unsigned int\<close> range the rounding step returns the smallest
  multiple of 32 that is strictly greater than the estimate.
\<close>

lemma round_Nmax_eq:
  assumes "e + 32 < 2 ^ 32"
  shows "round_Nmax e = 32 * (e div 32 + 1)"
proof -
  define q where "q = e div 32"
  define t where "t = e mod 32"
  have e: "e = 32 * q + t" by (simp add: q_def t_def)
  have "e + 32 - t = 32 * (q + 1)" by (simp add: e)
  then have "e + 32 - e mod 32 = 32 * (e div 32 + 1)" by (simp add: q_def t_def)
  moreover have "e + 32 - e mod 32 < 2 ^ 32" using assms by linarith
  ultimately show ?thesis by (simp add: round_Nmax_def uint_def and_31_eq_mod)
qed

lemma initializeCellAdj_Nmax: "m_Nmax (initializeCellAdj s) = m_Nmax s"
  by (simp add: initializeCellAdj_def split: prod.split)

lemma initializeMemory_Nmax:
  "m_Nmax (initializeMemory sys s) = round_Nmax (estimate_Nmax (getN sys) (m_dim s))"
  by (simp add: initializeMemory_def initializeCellAdj_Nmax Let_def split: prod.split)

text \<open>
  C5. The claim: \<^verbatim>\<open>initializeMemory\<close> sets \<open>Nmax\<close> to \<open>ceil(1.1 * N / numCells)\<close> rounded up to
  the next multiple of 32, and a ceiling that already is a multiple of 32 is kept. The code
  does not keep it: with 320 particles in 11 cells the ceiling is 32 and \<open>Nmax\<close> becomes 64.
\<close>

theorem C5_Nmax_at_multiple_of_32:
  "estimate_Nmax 320 (11, 1, 1) = 32 \<and>
   m_Nmax (initializeMemory
             \<lparr> getBox = b, getNDimensions = nd, arrays = replicate 320 p, shouldCompute = f \<rparr>
             (CellList_new\<lparr> m_dim := (11, 1, 1) \<rparr>)) = 64"
proof -
  have l: "rnd (11 / 10) = 9227469 / 8388608"
    by (subst rnd_eval [of 0]) (simp_all add: rne_def)
  have m: "fmul 320 (9227469 / 8388608) = 352"
    unfolding fmul_def by (subst rnd_eval [of 8]) (simp_all add: rne_def)
  have d: "fdiv 352 11 = 32" by (simp add: fdiv_def)
  have e: "estimate_Nmax 320 (11, 1, 1) = 32"
    by (simp add: estimate_Nmax_def uint_def l m d)
       (simp add: ceilf_def float_to_uint_def trunc_def int_to_uint_def)
  have r: "round_Nmax 32 = 64" by (simp add: round_Nmax_def uint_def)
  show ?thesis by (simp add: initializeMemory_Nmax getN_def e r del: One_nat_def)
qed

subsection \<open>Grid dimensions\<close>

text \<open>
  C6, as stated, fails: a box with positive extents smaller than the nominal width gets
  zero cells on every axis.
\<close>

theorem C6_counterexample:
  "computeDimensions (sys_of box_half []) CellList_new = (0, 0, 0)"
  by (rule computeDimensions_3d_unscaled)
     (simp_all add: sys_of_def box_half_def CellList_new_def uint_def UINT_MAX_def
       fsub_def fdiv_def)

text \<open>The scale-down does not keep the components positive either.\<close>

lemma computeDimensions_3d_scaled:
  assumes "getNDimensions sys \<noteq> 2"
    and "dx = float_to_uint (fdiv (fsub (xhi (getBox sys)) (xlo (getBox sys))) (m_nominal_width s))"
    and "dy = float_to_uint (fdiv (fsub (yhi (getBox sys)) (ylo (getBox sys))) (m_nominal_width s))"
    and "dz = float_to_uint (fdiv (fsub (zhi (getBox sys)) (zlo (getBox sys))) (m_nominal_width s))"
    and "m_max_cells s < uint (uint (dx * dy) * dz)"
    and "sf = powf (fdiv (uint_to_float (m_max_cells s))
                         (uint_to_float (uint (uint (dx * dy) * dz)))) (fdiv 1 3)"
  shows "computeDimensions sys s =
           (int_to_uint (float_to_int (fmul (uint_to_float dx) sf)),
            int_to_uint (float_to_int (fmul (uint_to_float dy) sf)),
            int_to_uint (float_to_int (fmul (uint_to_float dz) sf)))"
  using assms by (simp add: computeDimensions_def Let_def)

lemma float_to_uint_2 [simp]: "float_to_uint 2 = 2"
  by (simp add: float_to_uint_def trunc_def int_to_uint_def)

lemma powf_half_third: "0 \<le> powf (1 / 2) (fdiv 1 3)" "powf (1 / 2) (fdiv 1 3) \<le> 7 / 8"
proof -
  have q: "rnd (1 / 4) = 1 / 4" using rnd_dyadic [of 1 2] by simp
  have "rnd (1 / 4) \<le> rnd (1 / 3)" by (rule rnd_mono) simp
  then have c: "1 / 4 \<le> fdiv 1 3" by (simp add: fdiv_def q)
  have "(1 / 2 :: real) powr fdiv 1 3 \<le> (1 / 2) powr (1 / 4)"
    using c by (intro powr_mono') simp_all
  also have "\<dots> \<le> ((7 / 8) ^ 4) powr (1 / 4)"
    by (intro powr_mono2) (simp_all add: power4_eq_xxxx)
  also have "\<dots> = 7 / 8"
  proof -
    have "((7 / 8 :: real) ^ 4) powr (1 / 4) = ((7 / 8) powr 4) powr (1 / 4)" by simp
    also have "\<dots> = (7 / 8) powr (4 * (1 / 4))" by (rule powr_powr)
    finally show ?thesis by simp
  qed
  finally have y: "(1 / 2 :: real) powr fdiv 1 3 \<le> 7 / 8" .
  have s: "rnd (7 / 8) = 7 / 8" using rnd_dyadic [of 7 3] by simp
  show "powf (1 / 2) (fdiv 1 3) \<le> 7 / 8"
    using rnd_mono [OF y] by (simp add: powf_def s)
  show "0 \<le> powf (1 / 2) (fdiv 1 3)"
    unfolding powf_def by (rule rnd_nonneg) simp
qed

lemma scale_down_can_give_0:
  "fst (computeDimensions (sys_of \<lparr> xlo = 0, xhi = 1, ylo = 0, yhi = 1, zlo = 0, zhi = 2 \<rparr> [])
          (CellList_new\<lparr> m_max_cells := 1 \<rparr>)) = 0"
proof -
  let ?sys = "sys_of \<lparr> xlo = 0, xhi = 1, ylo = 0, yhi = 1, zlo = 0, zhi = 2 \<rparr> []"
  let ?s = "CellList_new\<lparr> m_max_cells := 1 \<rparr>"
  define sf where "sf = powf (1 / 2) (fdiv 1 3)"
  have sf: "0 \<le> sf" "sf \<le> 7 / 8" unfolding sf_def by (rule powf_half_third)+
  have s: "rnd (7 / 8) = 7 / 8" using rnd_dyadic [of 7 3] by simp
  have "0 \<le> rnd sf" using sf(1) by (rule rnd_nonneg)
  moreover have "rnd sf \<le> 7 / 8" using rnd_mono [OF sf(2)] by (simp add: s)
  ultimately have fl: "\<lfloor>rnd sf\<rfloor> = 0" by linarith
  have "computeDimensions ?sys ?s =
          (int_to_uint (float_to_int (fmul (uint_to_float 1) sf)),
           int_to_uint (float_to_int (fmul (uint_to_float 1) sf)),
           int_to_uint (float_to_int (fmul (uint_to_float 2) sf)))"
    by (rule computeDimensions_3d_scaled)
       (simp_all add: sys_of_def CellList_new_def uint_def fsub_def fdiv_def sf_def)
  then show ?thesis
    using fl \<open>0 \<le> rnd sf\<close> by (simp add: float_to_int_def trunc_def int_to_uint_def fmul_def)
qed

text \<open>
  C6, amended. When the nominal width is positive and not larger than any extent the grid
  covers (in two dimensions the z axis always has 3 cells), the quotients are representable,
  and the raw cell count does not exceed \<open>max_cells\<close> (so that no scale-down is applied),
  every component of the result of \<^verbatim>\<open>computeDimensions\<close> is at least 1. Extents and
  quotients are the ones the code computes, \<open>fsub hi lo\<close> and \<open>fdiv extent nominal_width\<close>.
\<close>

theorem C6_dims_at_least_1:
  assumes w: "0 < m_nominal_width s"
    and x: "m_nominal_width s \<le> fsub (xhi (getBox sys)) (xlo (getBox sys))"
           "fdiv (fsub (xhi (getBox sys)) (xlo (getBox sys))) (m_nominal_width s) < 2 ^ 32"
    and y: "m_nominal_width s \<le> fsub (yhi (getBox sys)) (ylo (getBox sys))"
           "fdiv (fsub (yhi (getBox sys)) (ylo (getBox sys))) (m_nominal_width s) < 2 ^ 32"
    and z: "getNDimensions sys = 2 \<or>
             (m_nominal_width s \<le> fsub (zhi (getBox sys)) (zlo (getBox sys)) \<and>
              fdiv (fsub (zhi (getBox sys)) (zlo (getBox sys))) (m_nominal_width s) < 2 ^ 32)"
    and fits: "float_to_uint (fdiv (fsub (xhi (getBox sys)) (xlo (getBox sys))) (m_nominal_width s)) *
               float_to_uint (fdiv (fsub (yhi (getBox sys)) (ylo (getBox sys))) (m_nominal_width s)) *
               (if getNDimensions sys = 2 then 3
                else float_to_uint
                       (fdiv (fsub (zhi (getBox sys)) (zlo (getBox sys))) (m_nominal_width s)))
               \<le> m_max_cells s"
    and mc: "m_max_cells s \<le> UINT_MAX"
  shows "case computeDimensions sys s of (dx, dy, dz) \<Rightarrow> 1 \<le> dx \<and> 1 \<le> dy \<and> 1 \<le> dz"
proof -
  define qx where "qx = fdiv (fsub (xhi (getBox sys)) (xlo (getBox sys))) (m_nominal_width s)"
  define qy where "qy = fdiv (fsub (yhi (getBox sys)) (ylo (getBox sys))) (m_nominal_width s)"
  define qz where "qz = fdiv (fsub (zhi (getBox sys)) (zlo (getBox sys))) (m_nominal_width s)"
  define dx where "dx = float_to_uint qx"
  define dy where "dy = float_to_uint qy"
  define dz where "dz = (if getNDimensions sys = 2 then 3 else float_to_uint qz)"
  have "1 \<le> qx" unfolding qx_def using w x(1) by (rule fdiv_ge_1)
  then have dx1: "1 \<le> dx" unfolding dx_def using x(2) by (intro float_to_uint_ge_1) (simp_all add: qx_def)
  have "1 \<le> qy" unfolding qy_def using w y(1) by (rule fdiv_ge_1)
  then have dy1: "1 \<le> dy" unfolding dy_def using y(2) by (intro float_to_uint_ge_1) (simp_all add: qy_def)
  have dz1: "1 \<le> dz"
  proof (cases "getNDimensions sys = 2")
    case True
    then show ?thesis by (simp add: dz_def)
  next
    case False
    then have "m_nominal_width s \<le> fsub (zhi (getBox sys)) (zlo (getBox sys))" "qz < 2 ^ 32"
      using z by (simp_all add: qz_def)
    then have "1 \<le> qz" "qz < 2 ^ 32" unfolding qz_def using w by (simp_all add: fdiv_ge_1)
    then have "1 \<le> float_to_uint qz" by (rule float_to_uint_ge_1)
    with False show ?thesis by (simp add: dz_def)
  qed
  have p: "dx * dy * dz \<le> m_max_cells s"
    using fits unfolding dx_def dy_def dz_def qx_def qy_def qz_def by (simp split: if_splits)
  have "dx * dy \<le> dx * dy * dz" using dz1 by simp
  then have "dx * dy \<le> UINT_MAX" using p mc by linarith
  then have u1: "uint (dx * dy) = dx * dy" by (rule uint_le)
  have u2: "uint (dx * dy * dz) = dx * dy * dz" using p mc by (intro uint_le) simp
  have no_scale: "\<not> uint (uint (dx * dy) * dz) > m_max_cells s" using p by (simp add: u1 u2)
  have "computeDimensions sys s = (dx, dy, dz)"
  proof (cases "getNDimensions sys = 2")
    case True
    then have "dz = 3" by (simp add: dz_def)
    with True no_scale show ?thesis
      by (simp add: computeDimensions_def Let_def dx_def [symmetric] dy_def [symmetric]
            qx_def [symmetric] qy_def [symmetric])
  next
    case False
    then have "dz = float_to_uint qz" by (simp add: dz_def)
    with False no_scale show ?thesis
      by (simp add: computeDimensions_def Let_def dx_def [symmetric] dy_def [symmetric]
            qx_def [symmetric] qy_def [symmetric] qz_def [symmetric])
  qed
  then show ?thesis using dx1 dy1 dz1 by simp
qed

text \<open>The spec's example box: extent 1000 on every axis, nominal width 500.\<close>

theorem C6_dims_at_least_1_witness:
  "case computeDimensions (sys_of box_1000 []) (CellList_new\<lparr> m_nominal_width := 500 \<rparr>) of
     (dx, dy, dz) \<Rightarrow> 1 \<le> dx \<and> 1 \<le> dy \<and> 1 \<le> dz"
  by (rule C6_dims_at_least_1)
     (simp_all add: sys_of_def box_1000_def CellList_new_def UINT_MAX_def float_to_uint_def
       trunc_def int_to_uint_def fsub_def fdiv_def)

subsection \<open>The loop over the particles\<close>

lemma Index2D_at_in_range:
  assumes "i2_w cli = w" "offset < w" "bin < nc" "w * nc < 2 ^ 32"
  shows "Index2D_at cli offset bin = bin * w + offset" "bin * w + offset < w * nc"
proof -
  have "bin * w + offset < bin * w + w" using assms(2) by simp
  also have "\<dots> = (bin + 1) * w" by simp
  also have "\<dots> \<le> nc * w" using assms(3) by (intro mult_le_mono1) simp
  finally show b: "bin * w + offset < w * nc" by (simp add: mult.commute)
  then have "bin * w + offset < 2 ^ 32" using assms(4) by linarith
  then show "Index2D_at cli offset bin = bin * w + offset"
    by (simp add: Index2D_at_def assms(1) uint_id)
qed

lemma body_eq:
  assumes ok: "storage_ok s" and ci: "ci = m_cell_indexer s" and cli: "cli = m_cell_list_indexer s"
  shows "computeCellList_body box scale ci cli n p s =
     (if has_nan p then (Some (InvalidPosition n), s)
      else if bin_of box scale (m_dim s) ci p \<ge> Index3D_getNumElements ci
        then (Some (OutOfBoundsCell n), s)
        else (None, bin_step n (bin_of box scale (m_dim s) ci p) p s))"
proof (cases "has_nan p")
  case True
  then show ?thesis by (simp add: computeCellList_body_def has_nan_def)
next
  case False
  obtain ib jb kb where fb: "find_bin box scale (m_dim s) p = (ib, jb, kb)"
    by (cases "find_bin box scale (m_dim s) p") auto
  define bin where "bin = Index3D_at ci ib jb kb"
  have bo: "bin_of box scale (m_dim s) ci p = bin" by (simp add: bin_of_def fb bin_def)
  show ?thesis
  proof (cases "bin \<ge> Index3D_getNumElements ci")
    case True
    with False show ?thesis
      by (simp add: computeCellList_body_def has_nan_def fb bin_def [symmetric] bo)
  next
    case inr: False
    then have b: "bin < Index3D_getNumElements (m_cell_indexer s)" by (simp add: ci)
    have len: "bin < length (m_cell_size s)" using ok b by (simp add: storage_ok_def)
    define offset where "offset = m_cell_size s ! bin"
    show ?thesis
    proof (cases "offset < m_Nmax s")
      case True
      have w: "i2_w cli = m_Nmax s" using ok by (simp add: storage_ok_def cli)
      have bound: "m_Nmax s * Index3D_getNumElements (m_cell_indexer s) < 2 ^ 32"
        using ok by (simp add: storage_ok_def)
      have ix: "Index2D_at cli offset bin = bin * m_Nmax s + offset"
        and lt: "bin * m_Nmax s + offset < m_Nmax s * Index3D_getNumElements (m_cell_indexer s)"
        using Index2D_at_in_range [OF w True b bound] by simp_all
      have l1: "bin * m_Nmax s + offset < length (m_xyzf s)" using ok lt by (simp add: storage_ok_def)
      have l2: "m_compute_tdb s \<Longrightarrow> bin * m_Nmax s + offset < length (m_tdb s)"
        using ok lt by (simp add: storage_ok_def)
      from False inr len True ix l1 l2 show ?thesis
        by (simp add: computeCellList_body_def has_nan_def fb bin_def [symmetric] bo
            offset_def [symmetric] store_def record_of_def bin_step_def Let_def)
    next
      case nov: False
      from False inr len nov show ?thesis
        by (simp add: computeCellList_body_def has_nan_def fb bin_def [symmetric] bo
            offset_def [symmetric] bin_step_def Let_def)
    qed
  qed
qed

lemma bin_step_frame:
  "bin_step n bin p s =
     s\<lparr> m_cell_size := m_cell_size (bin_step n bin p s), m_xyzf := m_xyzf (bin_step n bin p s),
        m_tdb := m_tdb (bin_step n bin p s), m_overflowed := m_overflowed (bin_step n bin p s) \<rparr>"
  by (simp add: bin_step_def Let_def)

lemma bin_step_fields [simp]:
  "m_dim (bin_step n bin p s) = m_dim s"
  "m_Nmax (bin_step n bin p s) = m_Nmax s"
  "m_cell_indexer (bin_step n bin p s) = m_cell_indexer s"
  "m_cell_list_indexer (bin_step n bin p s) = m_cell_list_indexer s"
  "m_compute_tdb (bin_step n bin p s) = m_compute_tdb s"
  "m_flag_charge (bin_step n bin p s) = m_flag_charge s"
  "length (m_cell_size (bin_step n bin p s)) = length (m_cell_size s)"
  "length (m_xyzf (bin_step n bin p s)) = length (m_xyzf s)"
  "length (m_tdb (bin_step n bin p s)) = length (m_tdb s)"
  by (simp_all add: bin_step_def Let_def)

lemma bin_step_storage_ok [simp]: "storage_ok (bin_step n bin p s) = storage_ok s"
  by (simp add: storage_ok_def)

lemma bin_step_cell_size:
  "m_cell_size (bin_step n bin p s) = (m_cell_size s)[bin := uint (m_cell_size s ! bin + 1)]"
  by (simp add: bin_step_def Let_def)

lemma bin_step_overflowed:
  "m_overflowed (bin_step n bin p s) \<longleftrightarrow> m_overflowed s \<or> m_Nmax s \<le> m_cell_size s ! bin"
  by (auto simp add: bin_step_def Let_def)

lemma bin_step_xyzf:
  "m_xyzf (bin_step n bin p s) =
     (if m_cell_size s ! bin < m_Nmax s
      then (m_xyzf s)[bin * m_Nmax s + m_cell_size s ! bin := record_of s n p]
      else m_xyzf s)"
  by (simp add: bin_step_def Let_def)

lemma record_of_bin_step [simp]: "record_of (bin_step n bin p s) = record_of s"
  by (rule ext, rule ext) (simp add: record_of_def)

lemma fill_frame:
  "fill b n ps s =
     s\<lparr> m_cell_size := m_cell_size (fill b n ps s), m_xyzf := m_xyzf (fill b n ps s),
        m_tdb := m_tdb (fill b n ps s), m_overflowed := m_overflowed (fill b n ps s) \<rparr>"
proof (induction ps arbitrary: n s)
  case Nil
  show ?case by simp
next
  case (Cons p ps)
  show ?case
    by (subst (1) fill.simps, subst Cons.IH, subst (1) bin_step_frame) simp
qed

lemma fill_fields [simp]:
  "m_dim (fill b n ps s) = m_dim s"
  "m_Nmax (fill b n ps s) = m_Nmax s"
  "m_cell_indexer (fill b n ps s) = m_cell_indexer s"
  "m_cell_list_indexer (fill b n ps s) = m_cell_list_indexer s"
  "m_compute_tdb (fill b n ps s) = m_compute_tdb s"
  "m_flag_charge (fill b n ps s) = m_flag_charge s"
  "length (m_cell_size (fill b n ps s)) = length (m_cell_size s)"
  "length (m_xyzf (fill b n ps s)) = length (m_xyzf s)"
  "length (m_tdb (fill b n ps s)) = length (m_tdb s)"
  by (induction ps arbitrary: n s) simp_all

lemma fill_storage_ok [simp]: "storage_ok (fill b n ps s) = storage_ok s"
  by (simp add: storage_ok_def)

lemma loop_append:
  assumes "storage_ok s" "ci = m_cell_indexer s" "cli = m_cell_list_indexer s"
    and "\<forall>p \<in> set good. \<not> has_nan p \<and>
           bin_of box scale (m_dim s) ci p < Index3D_getNumElements ci"
  shows "computeCellList_loop box scale ci cli n (good @ rest) s =
         computeCellList_loop box scale ci cli (n + length good) rest
           (fill (bin_of box scale (m_dim s) ci) n good s)"
  using assms
proof (induction good arbitrary: n s)
  case Nil
  show ?case by simp
next
  case (Cons p good)
  let ?s1 = "bin_step n (bin_of box scale (m_dim s) ci p) p s"
  have b: "computeCellList_body box scale ci cli n p s = (None, ?s1)"
    using Cons.prems by (simp add: body_eq)
  have ih: "computeCellList_loop box scale ci cli (n + 1) (good @ rest) ?s1 =
            computeCellList_loop box scale ci cli (n + 1 + length good) rest
              (fill (bin_of box scale (m_dim ?s1) ci) (n + 1) good ?s1)"
    by (rule Cons.IH) (use Cons.prems in simp_all)
  show ?case using ih by (simp add: b)
qed

lemma loop_all_valid:
  assumes "storage_ok s" "ci = m_cell_indexer s" "cli = m_cell_list_indexer s"
    and "\<forall>p \<in> set ps. \<not> has_nan p \<and>
           bin_of box scale (m_dim s) ci p < Index3D_getNumElements ci"
  shows "computeCellList_loop box scale ci cli n ps s =
         (None, fill (bin_of box scale (m_dim s) ci) n ps s)"
  using loop_append [OF assms, of n "[]"] by simp


lemma fill_cell_size:
  assumes "c < length (m_cell_size s)"
    and "m_cell_size s ! c + length ps < 2 ^ 32"
  shows "m_cell_size (fill b n ps s) ! c = m_cell_size s ! c + length (filter (\<lambda>p. b p = c) ps)"
  using assms
proof (induction ps arbitrary: n s)
  case Nil
  show ?case by simp
next
  case (Cons p ps)
  let ?s1 = "bin_step n (b p) p s"
  have c1: "m_cell_size ?s1 ! c = m_cell_size s ! c + (if b p = c then 1 else 0)"
    using Cons.prems by (simp add: bin_step_cell_size nth_list_update uint_id)
  have "m_cell_size (fill b (n + 1) ps ?s1) ! c =
        m_cell_size ?s1 ! c + length (filter (\<lambda>p. b p = c) ps)"
    by (rule Cons.IH) (use Cons.prems c1 in simp_all)
  then show ?case by (simp add: c1)
qed

lemma fill_overflowed:
  assumes "\<forall>p \<in> set ps. b p < length (m_cell_size s)"
    and "\<forall>c < length (m_cell_size s). m_cell_size s ! c + length ps < 2 ^ 32"
  shows "m_overflowed (fill b n ps s) \<longleftrightarrow>
           m_overflowed s \<or>
           (\<exists>c < length (m_cell_size s). 0 < length (filter (\<lambda>p. b p = c) ps) \<and>
                m_Nmax s < m_cell_size s ! c + length (filter (\<lambda>p. b p = c) ps))"
  using assms
proof (induction ps arbitrary: n s)
  case Nil
  show ?case by simp
next
  case (Cons p ps)
  let ?s1 = "bin_step n (b p) p s"
  let ?cs = "m_cell_size s"
  define cnt where "cnt c = length (filter (\<lambda>p. b p = c) ps)" for c
  define cnt' where "cnt' c = length (filter (\<lambda>q. b q = c) (p # ps))" for c
  define cs1 where "cs1 = m_cell_size ?s1"
  have bp: "b p < length ?cs" using Cons.prems by simp
  have cnt_bp: "cnt' (b p) = cnt (b p) + 1" by (simp add: cnt_def cnt'_def)
  have cnt_other: "cnt' c = cnt c" if "c \<noteq> b p" for c using that by (auto simp: cnt_def cnt'_def)
  have nowrap: "?cs ! c + 1 < 2 ^ 32" if "c < length ?cs" for c
  proof -
    have "?cs ! c + length (p # ps) < 2 ^ 32" using Cons.prems(2) that by blast
    then show ?thesis by simp
  qed
  have cs1_bp: "cs1 ! (b p) = ?cs ! (b p) + 1"
    using bp nowrap [OF bp] by (simp add: cs1_def bin_step_cell_size uint_id)
  have cs1_other: "cs1 ! c = ?cs ! c" if "c \<noteq> b p" for c
    using that by (simp add: cs1_def bin_step_cell_size)
  have len1: "length cs1 = length ?cs" by (simp add: cs1_def)
  have ih: "m_overflowed (fill b (n + 1) ps ?s1) \<longleftrightarrow>
           m_overflowed ?s1 \<or> (\<exists>c < length cs1. 0 < cnt c \<and> m_Nmax ?s1 < cs1 ! c + cnt c)"
    unfolding cnt_def cs1_def
  proof (rule Cons.IH)
    show "\<forall>p \<in> set ps. b p < length (m_cell_size ?s1)" using Cons.prems by simp
    show "\<forall>c < length (m_cell_size ?s1). m_cell_size ?s1 ! c + length ps < 2 ^ 32"
    proof (intro allI impI)
      fix c assume "c < length (m_cell_size ?s1)"
      then have c: "c < length ?cs" by simp
      then have "?cs ! c + length (p # ps) < 2 ^ 32" using Cons.prems(2) by blast
      moreover have "cs1 ! c \<le> ?cs ! c + 1" using cs1_bp cs1_other [of c] by (cases "c = b p") simp_all
      ultimately show "m_cell_size ?s1 ! c + length ps < 2 ^ 32" by (simp add: cs1_def)
    qed
  qed
  have key: "(m_Nmax s \<le> ?cs ! b p \<or> (\<exists>c < length ?cs. 0 < cnt c \<and> m_Nmax s < cs1 ! c + cnt c)) \<longleftrightarrow>
        (\<exists>c < length ?cs. 0 < cnt' c \<and> m_Nmax s < ?cs ! c + cnt' c)"
    (is "?L \<longleftrightarrow> ?R")
  proof
    assume ?L
    then show ?R
    proof
      assume "m_Nmax s \<le> ?cs ! b p"
      then have "0 < cnt' (b p) \<and> m_Nmax s < ?cs ! b p + cnt' (b p)" by (simp add: cnt_bp)
      then show ?R using bp by blast
    next
      assume "\<exists>c < length ?cs. 0 < cnt c \<and> m_Nmax s < cs1 ! c + cnt c"
      then obtain c where c: "c < length ?cs" "0 < cnt c" "m_Nmax s < cs1 ! c + cnt c"
        by blast
      have "0 < cnt' c \<and> m_Nmax s < ?cs ! c + cnt' c"
      proof (cases "c = b p")
        case True
        then show ?thesis using c cs1_bp cnt_bp by simp
      next
        case False
        then show ?thesis using c cs1_other cnt_other by simp
      qed
      then show ?R using c(1) by blast
    qed
  next
    assume ?R
    then obtain c where c: "c < length ?cs" "0 < cnt' c" "m_Nmax s < ?cs ! c + cnt' c" by blast
    show ?L
    proof (cases "c = b p")
      case True
      show ?thesis
      proof (cases "cnt (b p) = 0")
        case z: True
        then have "m_Nmax s \<le> ?cs ! b p" using c(3) True cnt_bp by simp
        then show ?thesis by simp
      next
        case False
        then have "0 < cnt c \<and> m_Nmax s < cs1 ! c + cnt c"
          using c True cs1_bp cnt_bp by simp
        then show ?thesis using c(1) by blast
      qed
    next
      case False
      then have "0 < cnt c \<and> m_Nmax s < cs1 ! c + cnt c"
        using c cs1_other cnt_other by simp
      then show ?thesis using c(1) by blast
    qed
  qed
  have "m_overflowed (fill b n (p # ps) s) \<longleftrightarrow>
        m_overflowed s \<or> (m_Nmax s \<le> ?cs ! b p \<or>
          (\<exists>c < length ?cs. 0 < cnt c \<and> m_Nmax s < cs1 ! c + cnt c))"
    using ih by (simp add: bin_step_overflowed len1 disj_assoc)
  then show ?case unfolding key cnt'_def .
qed


lemma fill_cell_size_mono:
  assumes "c < length (m_cell_size s)"
    and "m_cell_size s ! c + length ps < 2 ^ 32"
  shows "m_cell_size s ! c \<le> m_cell_size (fill b n ps s) ! c"
  using fill_cell_size [OF assms, of b n] by simp

lemma fill_xyzf_keeps:
  assumes "c < length (m_cell_size s)" "slot < m_cell_size s ! c" "slot < m_Nmax s"
    and "m_cell_size s ! c + length ps < 2 ^ 32"
  shows "m_xyzf (fill b n ps s) ! (c * m_Nmax s + slot) = m_xyzf s ! (c * m_Nmax s + slot)"
  using assms
proof (induction ps arbitrary: n s)
  case Nil
  show ?case by simp
next
  case (Cons p ps)
  let ?s1 = "bin_step n (b p) p s"
  let ?cs = "m_cell_size s"
  have nowrap: "?cs ! c + 1 < 2 ^ 32" using Cons.prems(4) by simp
  have c1: "m_cell_size ?s1 ! c = ?cs ! c + (if b p = c then 1 else 0)"
    using Cons.prems(1) nowrap by (simp add: bin_step_cell_size nth_list_update uint_id)
  have keep1: "m_xyzf ?s1 ! (c * m_Nmax s + slot) = m_xyzf s ! (c * m_Nmax s + slot)"
  proof (cases "?cs ! b p < m_Nmax s")
    case True
    have "b p \<noteq> c \<or> ?cs ! b p \<noteq> slot" using Cons.prems(2) by auto
    then have "b p * m_Nmax s + ?cs ! b p \<noteq> c * m_Nmax s + slot"
      using True Cons.prems(3) by (intro slot_index_neq) simp_all
    then show ?thesis using True by (simp add: bin_step_xyzf)
  next
    case False
    then show ?thesis by (simp add: bin_step_xyzf)
  qed
  have "m_xyzf (fill b (n + 1) ps ?s1) ! (c * m_Nmax ?s1 + slot) =
        m_xyzf ?s1 ! (c * m_Nmax ?s1 + slot)"
    by (rule Cons.IH) (use Cons.prems c1 in simp_all)
  then show ?case using keep1 by simp
qed

lemma fill_record_stored:
  assumes ok: "storage_ok s"
    and valid: "\<forall>p \<in> set ps. b p < length (m_cell_size s)"
    and k: "k < length ps"
    and bound: "m_cell_size s ! b (ps ! k) + length ps < 2 ^ 32"
    and fits: "m_cell_size s ! b (ps ! k) + length (filter (\<lambda>p. b p = b (ps ! k)) ps) \<le> m_Nmax s"
  shows "\<exists>slot < m_cell_size (fill b n ps s) ! b (ps ! k).
           b (ps ! k) * m_Nmax s + slot < length (m_xyzf s) \<and>
           m_xyzf (fill b n ps s) ! (b (ps ! k) * m_Nmax s + slot) = record_of s (n + k) (ps ! k)"
  using assms
proof (induction ps arbitrary: n s k)
  case Nil
  then show ?case by simp
next
  case (Cons p ps)
  let ?s1 = "bin_step n (b p) p s"
  let ?cs = "m_cell_size s"
  have bp: "b p < length ?cs" using Cons.prems by simp
  show ?case
  proof (cases k)
    case 0
    define off where "off = ?cs ! b p"
    have lt: "off < m_Nmax s" using Cons.prems(5) 0 by (simp add: off_def)
    have nowrap: "off + 1 < 2 ^ 32" using Cons.prems(4) 0 by (simp add: off_def)
    have nc: "length ?cs = Index3D_getNumElements (m_cell_indexer s)"
      and lx: "length (m_xyzf s) = m_Nmax s * Index3D_getNumElements (m_cell_indexer s)"
      using Cons.prems(1) by (simp_all add: storage_ok_def)
    have "b p * m_Nmax s + off < b p * m_Nmax s + m_Nmax s" using lt by simp
    also have "\<dots> = (b p + 1) * m_Nmax s" by simp
    also have "\<dots> \<le> length ?cs * m_Nmax s" using bp by (intro mult_le_mono1) simp
    finally have inr: "b p * m_Nmax s + off < length (m_xyzf s)" by (simp add: nc lx mult.commute)
    have w: "m_xyzf ?s1 ! (b p * m_Nmax s + off) = record_of s n p"
      using lt inr by (simp add: bin_step_xyzf off_def)
    have c1: "m_cell_size ?s1 ! b p = off + 1"
      using bp nowrap by (simp add: bin_step_cell_size uint_id off_def)
    have keep: "m_xyzf (fill b (n + 1) ps ?s1) ! (b p * m_Nmax ?s1 + off) =
                m_xyzf ?s1 ! (b p * m_Nmax ?s1 + off)"
      by (rule fill_xyzf_keeps) (use bp lt c1 Cons.prems(4) 0 in \<open>simp_all add: off_def\<close>)
    have mono: "m_cell_size ?s1 ! b p \<le> m_cell_size (fill b (n + 1) ps ?s1) ! b p"
      by (rule fill_cell_size_mono) (use bp c1 Cons.prems(4) 0 in \<open>simp_all add: off_def\<close>)
    have "off < m_cell_size (fill b n (p # ps) s) ! b p" using mono c1 by simp
    moreover have "m_xyzf (fill b n (p # ps) s) ! (b p * m_Nmax s + off) = record_of s n p"
      using keep w by simp
    ultimately show ?thesis using 0 inr by auto
  next
    case (Suc k')
    let ?c = "b (ps ! k')"
    have k': "k' < length ps" using Cons.prems(3) Suc by simp
    have c: "?c < length ?cs" using Cons.prems(2) k' by simp
    have nowrap: "?cs ! ?c + 1 < 2 ^ 32" using Cons.prems(4) Suc by simp
    have c1: "m_cell_size ?s1 ! ?c = ?cs ! ?c + (if b p = ?c then 1 else 0)"
      using c nowrap by (simp add: bin_step_cell_size nth_list_update uint_id)
    have "\<exists>slot < m_cell_size (fill b (n + 1) ps ?s1) ! ?c.
           ?c * m_Nmax ?s1 + slot < length (m_xyzf ?s1) \<and>
           m_xyzf (fill b (n + 1) ps ?s1) ! (?c * m_Nmax ?s1 + slot) = record_of ?s1 (n + 1 + k') (ps ! k')"
    proof (rule Cons.IH)
      show "storage_ok ?s1" using Cons.prems(1) by simp
      show "\<forall>p \<in> set ps. b p < length (m_cell_size ?s1)" using Cons.prems(2) by simp
      show "k' < length ps" by (rule k')
      show "m_cell_size ?s1 ! ?c + length ps < 2 ^ 32" using Cons.prems(4) Suc c1 by simp
      show "m_cell_size ?s1 ! ?c + length (filter (\<lambda>p. b p = ?c) ps) \<le> m_Nmax ?s1"
        using Cons.prems(5) Suc c1 by (simp split: if_splits)
    qed
    then show ?thesis using Suc by simp
  qed
qed

subsection \<open>The rebuild\<close>

lemma cell_of_cell_size_upd [simp]: "cell_of sys (s\<lparr> m_cell_size := cs \<rparr>) = cell_of sys s"
  by (rule ext) (simp add: cell_of_def)

lemma cell_of_overflowed_upd [simp]: "cell_of sys (s\<lparr> m_overflowed := b \<rparr>) = cell_of sys s"
  by (rule ext) (simp add: cell_of_def)

lemma storage_ok_overflowed_upd [simp]: "storage_ok (s\<lparr> m_overflowed := b \<rparr>) = storage_ok s"
  by (simp add: storage_ok_def)

lemma storage_ok_reset:
  "storage_ok s \<Longrightarrow>
   storage_ok (s\<lparr> m_cell_size := replicate (Index3D_getNumElements (m_cell_indexer s)) 0 \<rparr>)"
  by (simp add: storage_ok_def)

text \<open>The state in which the loop over the particles starts: all counters cleared.\<close>

lemma computeCellList_eq_loop:
  assumes "storage_ok s"
  shows "computeCellList sys s =
     (case m_width s of (wx, wy, wz) \<Rightarrow>
        computeCellList_loop (getBox sys) (fdiv 1 wx, fdiv 1 wy, fdiv 1 wz) (m_cell_indexer s)
          (m_cell_list_indexer s) 0 (arrays sys)
          (s\<lparr> m_cell_size := replicate (Index3D_getNumElements (m_cell_indexer s)) 0 \<rparr>))"
  using assms by (simp add: computeCellList_def storage_ok_def Let_def split: prod.split)

lemma computeCellList_prefix:
  assumes ok: "storage_ok s"
    and ps: "arrays sys = good @ rest"
    and valid: "\<forall>p \<in> set good. \<not> has_nan p \<and>
                  cell_of sys s p < Index3D_getNumElements (m_cell_indexer s)"
  shows "computeCellList sys s =
     (case m_width s of (wx, wy, wz) \<Rightarrow>
        computeCellList_loop (getBox sys) (fdiv 1 wx, fdiv 1 wy, fdiv 1 wz) (m_cell_indexer s)
          (m_cell_list_indexer s) (length good) rest
          (fill (cell_of sys s) 0 good
             (s\<lparr> m_cell_size := replicate (Index3D_getNumElements (m_cell_indexer s)) 0 \<rparr>)))"
proof -
  obtain wx wy wz where w: "m_width s = (wx, wy, wz)" by (cases "m_width s") auto
  let ?s0 = "s\<lparr> m_cell_size := replicate (Index3D_getNumElements (m_cell_indexer s)) 0 \<rparr>"
  let ?scale = "(fdiv 1 wx, fdiv 1 wy, fdiv 1 wz)"
  have b: "bin_of (getBox sys) ?scale (m_dim s) (m_cell_indexer s) = cell_of sys s"
    by (rule ext) (simp add: cell_of_def w)
  have "computeCellList_loop (getBox sys) ?scale (m_cell_indexer s) (m_cell_list_indexer s) 0
          (good @ rest) ?s0 =
        computeCellList_loop (getBox sys) ?scale (m_cell_indexer s) (m_cell_list_indexer s)
          (0 + length good) rest
          (fill (bin_of (getBox sys) ?scale (m_dim ?s0) (m_cell_indexer s)) 0 good ?s0)"
  proof (rule loop_append)
    show "storage_ok ?s0" using ok by (rule storage_ok_reset)
    show "\<forall>p\<in>set good. \<not> has_nan p \<and>
            bin_of (getBox sys) ?scale (m_dim ?s0) (m_cell_indexer s) p
              < Index3D_getNumElements (m_cell_indexer s)"
      using valid by (simp add: b)
  qed simp_all
  then show ?thesis using ok by (simp add: computeCellList_eq_loop w ps b)
qed

lemma computeCellList_valid:
  assumes ok: "storage_ok s"
    and valid: "\<forall>p \<in> set (arrays sys). \<not> has_nan p \<and>
                  cell_of sys s p < Index3D_getNumElements (m_cell_indexer s)"
  shows "computeCellList sys s =
     (None, fill (cell_of sys s) 0 (arrays sys)
              (s\<lparr> m_cell_size := replicate (Index3D_getNumElements (m_cell_indexer s)) 0 \<rparr>))"
  using computeCellList_prefix [OF ok, of sys "arrays sys" "[]"] valid
  by (simp split: prod.split)

lemma computeCellList_nan:
  assumes ok: "storage_ok s"
    and ps: "arrays sys = good @ p # rest"
    and valid: "\<forall>p \<in> set good. \<not> has_nan p \<and>
                  cell_of sys s p < Index3D_getNumElements (m_cell_indexer s)"
    and nan: "has_nan p"
  shows "computeCellList sys s =
     (Some (InvalidPosition (length good)),
      fill (cell_of sys s) 0 good
        (s\<lparr> m_cell_size := replicate (Index3D_getNumElements (m_cell_indexer s)) 0 \<rparr>))"
proof -
  have "computeCellList_body box scale ci cli n p s' = (Some (InvalidPosition n), s')"
    for box scale ci cli n s'
    using nan by (simp add: computeCellList_body_def has_nan_def)
  then show ?thesis
    using computeCellList_prefix [OF ok ps valid] by (simp split: prod.split)
qed


subsection \<open>Initialisation\<close>

lemma initializeCellAdj_frame:
  "initializeCellAdj s = s\<lparr> m_cell_adj := m_cell_adj (initializeCellAdj s) \<rparr>"
  by (simp add: initializeCellAdj_def split: prod.split)

lemma initializeWidth_frame:
  "initializeWidth sys s =
     s\<lparr> m_dim := computeDimensions sys s,
        m_width := (case computeDimensions sys s of (dx, dy, dz) \<Rightarrow>
                      (fdiv (fsub (xhi (getBox sys)) (xlo (getBox sys))) (uint_to_float dx),
                       fdiv (fsub (yhi (getBox sys)) (ylo (getBox sys))) (uint_to_float dy),
                       fdiv (fsub (zhi (getBox sys)) (zlo (getBox sys))) (uint_to_float dz))) \<rparr>"
  by (simp add: initializeWidth_def Let_def split: prod.split)

lemma computeDimensions_cong:
  "m_nominal_width s' = m_nominal_width s \<Longrightarrow> m_max_cells s' = m_max_cells s \<Longrightarrow>
   computeDimensions sys s' = computeDimensions sys s"
  by (simp add: computeDimensions_def Let_def)

lemma initializeMemory_eq: "initializeMemory sys s = initializeCellAdj (mem_of sys s)"
  by (simp add: initializeMemory_def mem_of_def Let_def split: prod.split)

lemma initializeMemory_storage_ok:
  assumes "m_dim s = (dx, dy, dz)" "dx * dy * dz < 2 ^ 32"
    and "round_Nmax (estimate_Nmax (getN sys) (m_dim s)) * (dx * dy * dz) < 2 ^ 32"
  shows "storage_ok (initializeMemory sys s)"
proof -
  have "dx * dy \<le> dx * dy * dz \<or> dz = 0" by (cases dz) simp_all
  then have "uint (dx * dy) * dz = dx * dy * dz"
  proof
    assume "dx * dy \<le> dx * dy * dz"
    then have "dx * dy < 2 ^ 32" using assms(2) by linarith
    then show ?thesis by (simp add: uint_id)
  next
    assume "dz = 0" then show ?thesis by simp
  qed
  then have ne: "Index3D_getNumElements \<lparr> i3_w = dx, i3_h = dy, i3_d = dz \<rparr> = dx * dy * dz"
    using assms(2) by (simp add: Index3D_getNumElements_def uint_id)
  have "storage_ok (mem_of sys s)"
    using assms
    by (simp add: storage_ok_def mem_of_def Let_def ne GPUArray_uint_def GPUArray_Scalar4_def
        Index2D_getNumElements_def uint_id)
  moreover have "storage_ok (initializeCellAdj s') = storage_ok s'" for s'
    by (subst initializeCellAdj_frame) (simp add: storage_ok_def)
  ultimately show ?thesis by (simp add: initializeMemory_eq)
qed

lemma initializeAll_flags [simp]:
  "m_params_changed (initializeAll sys s) = m_params_changed s"
  "m_box_changed (initializeAll sys s) = m_box_changed s"
  "m_particles_sorted (initializeAll sys s) = m_particles_sorted s"
proof -
  have iw: "m_params_changed (initializeWidth sys s) = m_params_changed s"
    "m_box_changed (initializeWidth sys s) = m_box_changed s"
    "m_particles_sorted (initializeWidth sys s) = m_particles_sorted s"
    by (subst initializeWidth_frame, simp)+
  have im: "m_params_changed (initializeMemory sys s') = m_params_changed s'"
    "m_box_changed (initializeMemory sys s') = m_box_changed s'"
    "m_particles_sorted (initializeMemory sys s') = m_particles_sorted s'" for s'
    unfolding initializeMemory_eq
    by (subst initializeCellAdj_frame, simp add: mem_of_def Let_def split: prod.split)+
  show "m_params_changed (initializeAll sys s) = m_params_changed s"
    "m_box_changed (initializeAll sys s) = m_box_changed s"
    "m_particles_sorted (initializeAll sys s) = m_particles_sorted s"
    by (simp_all add: initializeAll_def iw im)
qed

lemma initializeWidth_flags [simp]:
  "m_params_changed (initializeWidth sys s) = m_params_changed s"
  "m_box_changed (initializeWidth sys s) = m_box_changed s"
  "m_particles_sorted (initializeWidth sys s) = m_particles_sorted s"
  by (subst initializeWidth_frame, simp)+

lemma initializeAll_fields:
  "m_dim (initializeAll sys s) = computeDimensions sys s"
  "m_width (initializeAll sys s) =
     (case computeDimensions sys s of (dx, dy, dz) \<Rightarrow>
        (fdiv (fsub (xhi (getBox sys)) (xlo (getBox sys))) (uint_to_float dx),
         fdiv (fsub (yhi (getBox sys)) (ylo (getBox sys))) (uint_to_float dy),
         fdiv (fsub (zhi (getBox sys)) (zlo (getBox sys))) (uint_to_float dz)))"
  "m_cell_indexer (initializeAll sys s) =
     (case computeDimensions sys s of (dx, dy, dz) \<Rightarrow> \<lparr> i3_w = dx, i3_h = dy, i3_d = dz \<rparr>)"
  "m_Nmax (initializeAll sys s) =
     round_Nmax (estimate_Nmax (getN sys) (computeDimensions sys s))"
proof -
  have a: "initializeAll sys s = initializeCellAdj (mem_of sys (initializeWidth sys s))"
    by (simp add: initializeAll_def initializeMemory_eq)
  have w: "m_dim (initializeWidth sys s) = computeDimensions sys s"
    "m_width (initializeWidth sys s) =
       (case computeDimensions sys s of (dx, dy, dz) \<Rightarrow>
          (fdiv (fsub (xhi (getBox sys)) (xlo (getBox sys))) (uint_to_float dx),
           fdiv (fsub (yhi (getBox sys)) (ylo (getBox sys))) (uint_to_float dy),
           fdiv (fsub (zhi (getBox sys)) (zlo (getBox sys))) (uint_to_float dz)))"
    by (subst initializeWidth_frame, simp)+
  have m: "m_dim (mem_of sys s') = m_dim s'" "m_width (mem_of sys s') = m_width s'"
    "m_cell_indexer (mem_of sys s') =
       (case m_dim s' of (dx, dy, dz) \<Rightarrow> \<lparr> i3_w = dx, i3_h = dy, i3_d = dz \<rparr>)"
    "m_Nmax (mem_of sys s') = round_Nmax (estimate_Nmax (getN sys) (m_dim s'))" for s'
    by (simp_all add: mem_of_def Let_def split: prod.split)
  have c: "m_dim (initializeCellAdj s') = m_dim s'" "m_width (initializeCellAdj s') = m_width s'"
    "m_cell_indexer (initializeCellAdj s') = m_cell_indexer s'"
    "m_Nmax (initializeCellAdj s') = m_Nmax s'" for s'
    by (subst initializeCellAdj_frame, simp)+
  show "m_dim (initializeAll sys s) = computeDimensions sys s"
    by (simp add: a c m w)
  show "m_width (initializeAll sys s) =
     (case computeDimensions sys s of (dx, dy, dz) \<Rightarrow>
        (fdiv (fsub (xhi (getBox sys)) (xlo (getBox sys))) (uint_to_float dx),
         fdiv (fsub (yhi (getBox sys)) (ylo (getBox sys))) (uint_to_float dy),
         fdiv (fsub (zhi (getBox sys)) (zlo (getBox sys))) (uint_to_float dz)))"
    by (simp add: a c m w)
  show "m_cell_indexer (initializeAll sys s) =
     (case computeDimensions sys s of (dx, dy, dz) \<Rightarrow> \<lparr> i3_w = dx, i3_h = dy, i3_d = dz \<rparr>)"
    by (simp add: a c m w)
  show "m_Nmax (initializeAll sys s) =
     round_Nmax (estimate_Nmax (getN sys) (computeDimensions sys s))"
    by (simp add: a c m w)
qed

lemma initializeAll_storage_ok:
  assumes "computeDimensions sys s = (dx, dy, dz)" "dx * dy * dz < 2 ^ 32"
    and "round_Nmax (estimate_Nmax (getN sys) (dx, dy, dz)) * (dx * dy * dz) < 2 ^ 32"
  shows "storage_ok (initializeAll sys s)"
proof -
  have "m_dim (initializeWidth sys s) = (dx, dy, dz)"
    using assms(1) by (subst initializeWidth_frame) simp
  then show ?thesis
    unfolding initializeAll_def using assms(2,3) by (intro initializeMemory_storage_ok) simp_all
qed

text \<open>The first \<^verbatim>\<open>compute\<close> of a new object initialises everything and rebuilds.\<close>

lemma compute_flags_first:
  assumes "m_params_changed s" "\<not> m_box_changed s" "\<not> m_particles_sorted s"
  shows "compute_flags sys s = ((initializeAll sys s)\<lparr> m_params_changed := False \<rparr>, True)"
  using assms by (simp add: compute_flags_def)


subsection \<open>The driver and the bucket fill\<close>

lemma compute_rebuild:
  assumes "compute_flags sys s = (s3, force)" "shouldCompute sys t \<or> force"
  shows "compute sys t s =
     (case computeCellList sys (s3\<lparr> m_overflowed := False \<rparr>) of
        (Some e, s4) \<Rightarrow> (Some e, s4)
      | (None, s4) \<Rightarrow>
          if m_overflowed s4 then (Some (BucketOverflow (m_Nmax s4)), s4) else (None, s4))"
  using assms by (auto simp add: compute_def)

lemma compute_valid:
  assumes flags: "compute_flags sys s = (s3, force)"
    and due: "shouldCompute sys t \<or> force"
    and ok: "storage_ok s3"
    and N: "length (arrays sys) < 2 ^ 32"
    and valid: "\<forall>p \<in> set (arrays sys). \<not> has_nan p \<and>
                  cell_of sys s3 p < Index3D_getNumElements (m_cell_indexer s3)"
  defines "s' \<equiv> fill (cell_of sys s3) 0 (arrays sys)
                   (s3\<lparr> m_overflowed := False,
                       m_cell_size := replicate (Index3D_getNumElements (m_cell_indexer s3)) 0 \<rparr>)"
  shows "compute sys t s =
           (if \<exists>c < Index3D_getNumElements (m_cell_indexer s3). m_Nmax s3 < occupancy sys s3 c
            then Some (BucketOverflow (m_Nmax s3)) else None, s')"
    and "\<forall>c < Index3D_getNumElements (m_cell_indexer s3). m_cell_size s' ! c = occupancy sys s3 c"
proof -
  let ?nc = "Index3D_getNumElements (m_cell_indexer s3)"
  let ?s0 = "s3\<lparr> m_overflowed := False, m_cell_size := replicate ?nc 0 \<rparr>"
  have c: "computeCellList sys (s3\<lparr> m_overflowed := False \<rparr>) = (None, s')"
    using computeCellList_valid [of "s3\<lparr> m_overflowed := False \<rparr>" sys] ok valid
    by (simp add: s'_def)
  have ov: "m_overflowed s' \<longleftrightarrow>
           m_overflowed ?s0 \<or>
           (\<exists>c < length (m_cell_size ?s0). 0 < length (filter (\<lambda>p. cell_of sys s3 p = c) (arrays sys)) \<and>
                m_Nmax ?s0 < m_cell_size ?s0 ! c + length (filter (\<lambda>p. cell_of sys s3 p = c) (arrays sys)))"
    unfolding s'_def by (rule fill_overflowed) (use valid N in simp_all)
  have ov': "m_overflowed s' \<longleftrightarrow> (\<exists>c < ?nc. m_Nmax s3 < occupancy sys s3 c)"
    unfolding ov by (auto simp add: occupancy_def)
  show "compute sys t s =
           (if \<exists>c < ?nc. m_Nmax s3 < occupancy sys s3 c
            then Some (BucketOverflow (m_Nmax s3)) else None, s')"
    using ov' by (simp add: compute_rebuild [OF flags due] c) (simp add: s'_def)
  show "\<forall>c < ?nc. m_cell_size s' ! c = occupancy sys s3 c"
  proof (intro allI impI)
    fix c assume c: "c < ?nc"
    have "m_cell_size s' ! c =
          m_cell_size ?s0 ! c + length (filter (\<lambda>p. cell_of sys s3 p = c) (arrays sys))"
      unfolding s'_def by (rule fill_cell_size) (use c N in simp_all)
    then show "m_cell_size s' ! c = occupancy sys s3 c" using c by (simp add: occupancy_def)
  qed
qed


lemma compute_records:
  assumes ok: "storage_ok s3"
    and N: "length (arrays sys) < 2 ^ 32"
    and valid: "\<forall>p \<in> set (arrays sys). \<not> has_nan p \<and>
                  cell_of sys s3 p < Index3D_getNumElements (m_cell_indexer s3)"
    and k: "k < length (arrays sys)"
    and fits: "occupancy sys s3 (cell_of sys s3 (arrays sys ! k)) \<le> m_Nmax s3"
  defines "s' \<equiv> fill (cell_of sys s3) 0 (arrays sys)
                   (s3\<lparr> m_overflowed := False,
                       m_cell_size := replicate (Index3D_getNumElements (m_cell_indexer s3)) 0 \<rparr>)"
  shows "\<exists>slot < m_cell_size s' ! cell_of sys s3 (arrays sys ! k).
           cell_of sys s3 (arrays sys ! k) * m_Nmax s3 + slot < length (m_xyzf s') \<and>
           m_xyzf s' ! (cell_of sys s3 (arrays sys ! k) * m_Nmax s3 + slot) =
             record_of s3 k (arrays sys ! k)"
proof -
  let ?nc = "Index3D_getNumElements (m_cell_indexer s3)"
  let ?s0 = "s3\<lparr> m_overflowed := False, m_cell_size := replicate ?nc 0 \<rparr>"
  let ?c = "cell_of sys s3 (arrays sys ! k)"
  have c: "?c < ?nc" using valid k by simp
  have r: "record_of ?s0 = record_of s3" by (rule ext, rule ext) (simp add: record_of_def)
  have "\<exists>slot < m_cell_size (fill (cell_of sys s3) 0 (arrays sys) ?s0) ! ?c.
           ?c * m_Nmax ?s0 + slot < length (m_xyzf ?s0) \<and>
           m_xyzf (fill (cell_of sys s3) 0 (arrays sys) ?s0) ! (?c * m_Nmax ?s0 + slot) =
             record_of ?s0 (0 + k) (arrays sys ! k)"
  proof (rule fill_record_stored)
    show "storage_ok ?s0" using ok by (simp add: storage_ok_def)
    show "\<forall>p \<in> set (arrays sys). cell_of sys s3 p < length (m_cell_size ?s0)"
      using valid by simp
    show "k < length (arrays sys)" by (rule k)
    show "m_cell_size ?s0 ! ?c + length (arrays sys) < 2 ^ 32" using c N by simp
    show "m_cell_size ?s0 ! ?c + length (filter (\<lambda>p. cell_of sys s3 p = ?c) (arrays sys))
            \<le> m_Nmax ?s0"
      using c fits by (simp add: occupancy_def)
  qed
  then show ?thesis by (simp add: s'_def r)
qed




lemma computeCellList_out_of_bounds:
  assumes ok: "storage_ok s"
    and ps: "arrays sys = good @ p # rest"
    and valid: "\<forall>p \<in> set good. \<not> has_nan p \<and>
                  cell_of sys s p < Index3D_getNumElements (m_cell_indexer s)"
    and nan: "\<not> has_nan p"
    and oob: "Index3D_getNumElements (m_cell_indexer s) \<le> cell_of sys s p"
  shows "computeCellList sys s =
     (Some (OutOfBoundsCell (length good)),
      fill (cell_of sys s) 0 good
        (s\<lparr> m_cell_size := replicate (Index3D_getNumElements (m_cell_indexer s)) 0 \<rparr>))"
proof -
  obtain wx wy wz where w: "m_width s = (wx, wy, wz)" by (cases "m_width s") auto
  let ?s0 = "s\<lparr> m_cell_size := replicate (Index3D_getNumElements (m_cell_indexer s)) 0 \<rparr>"
  let ?s1 = "fill (cell_of sys s) 0 good ?s0"
  have ok1: "storage_ok ?s1" using ok by (simp add: storage_ok_reset)
  have b: "bin_of (getBox sys) (fdiv 1 wx, fdiv 1 wy, fdiv 1 wz) (m_dim s) (m_cell_indexer s) p = cell_of sys s p"
    by (simp add: cell_of_def w)
  have "computeCellList_body (getBox sys) (fdiv 1 wx, fdiv 1 wy, fdiv 1 wz) (m_cell_indexer ?s1)
          (m_cell_list_indexer ?s1) (length good) p ?s1 = (Some (OutOfBoundsCell (length good)), ?s1)"
    using nan oob by (simp add: body_eq [OF ok1] b)
  then show ?thesis
    using computeCellList_prefix [OF ok ps valid] by (simp add: w)
qed

lemma compute_flags_cl_1 [simp]: "compute_flags sys cl_1 = (cl_1, False)"
  by (simp add: compute_flags_def cl_1_def)

lemma storage_ok_cl_1 [simp]: "storage_ok cl_1"
  by (simp add: storage_ok_def cl_1_def Index3D_getNumElements_def uint_def)

lemma cell_of_origin [simp]: "cell_of (sys_of box_1 ps) cl_1 origin = 0"
proof -
  have "m_width cl_1 = (1, 1, 1)" "m_dim cl_1 = (1, 1, 1)"
    "m_cell_indexer cl_1 = \<lparr> i3_w = 1, i3_h = 1, i3_d = 1 \<rparr>"
    by (simp_all add: cl_1_def)
  then show ?thesis
    by (simp add: cell_of_def bin_of_def sys_of_def Index3D_at_def uint_def)
qed

lemma cell_of_corner [simp]: "cell_of (sys_of box_1 ps) cl_1 corner = 0"
proof -
  have "m_width cl_1 = (1, 1, 1)" "m_dim cl_1 = (1, 1, 1)"
    "m_cell_indexer cl_1 = \<lparr> i3_w = 1, i3_h = 1, i3_d = 1 \<rparr>"
    by (simp_all add: cl_1_def)
  then show ?thesis
    by (simp add: cell_of_def bin_of_def sys_of_def Index3D_at_def uint_def)
qed

lemma has_nan_origin [simp]: "\<not> has_nan origin"
  by (simp add: has_nan_def origin_def particle_at_def)

lemma has_nan_corner [simp]: "\<not> has_nan corner"
  by (simp add: has_nan_def corner_def particle_at_def)

lemma cl_1_fields [simp]:
  "Index3D_getNumElements (m_cell_indexer cl_1) = 1" "m_Nmax cl_1 = 32"
  by (simp_all add: cl_1_def Index3D_getNumElements_def uint_def)

lemma sys_of_fields [simp]:
  "arrays (sys_of box ps) = ps" "getBox (sys_of box ps) = box" "shouldCompute (sys_of box ps) t"
  "getNDimensions (sys_of box ps) = 3"
  by (simp_all add: sys_of_def)

text \<open>
  C2. When every particle is valid (no NaN, a cell id in range), the rebuild sweeps over all
  particles: it reports \<open>BucketOverflow\<close> exactly when some cell receives more than \<open>Nmax\<close>
  particles, in either case every counter holds the true occupancy of its cell, and after
  a rebuild that succeeded the record of every particle is in an occupied slot of the bucket
  of its cell.
\<close>

theorem C2_overflow_after_full_sweep:
  assumes flags: "compute_flags sys s = (s3, force)"
    and due: "shouldCompute sys t \<or> force"
    and ok: "storage_ok s3"
    and N: "length (arrays sys) < 2 ^ 32"
    and valid: "\<forall>p \<in> set (arrays sys). \<not> has_nan p \<and>
                  cell_of sys s3 p < Index3D_getNumElements (m_cell_indexer s3)"
  shows "fst (compute sys t s) =
           (if \<exists>c < Index3D_getNumElements (m_cell_indexer s3). m_Nmax s3 < occupancy sys s3 c
            then Some (BucketOverflow (m_Nmax s3)) else None) \<and>
         (\<forall>c < Index3D_getNumElements (m_cell_indexer s3).
            m_cell_size (snd (compute sys t s)) ! c = occupancy sys s3 c) \<and>
         (fst (compute sys t s) = None \<longrightarrow>
            (\<forall>k < length (arrays sys).
               \<exists>slot < m_cell_size (snd (compute sys t s)) ! cell_of sys s3 (arrays sys ! k).
                 m_xyzf (snd (compute sys t s)) ! (cell_of sys s3 (arrays sys ! k) * m_Nmax s3 + slot) =
                   record_of s3 k (arrays sys ! k)))"
proof (intro conjI impI allI)
  show "fst (compute sys t s) =
           (if \<exists>c < Index3D_getNumElements (m_cell_indexer s3). m_Nmax s3 < occupancy sys s3 c
            then Some (BucketOverflow (m_Nmax s3)) else None)"
    by (simp add: compute_valid(1) [OF flags due ok N valid])
  fix c assume "c < Index3D_getNumElements (m_cell_indexer s3)"
  then show "m_cell_size (snd (compute sys t s)) ! c = occupancy sys s3 c"
    using compute_valid(2) [OF flags due ok N valid]
    by (simp add: compute_valid(1) [OF flags due ok N valid])
next
  fix k assume none: "fst (compute sys t s) = None" and k: "k < length (arrays sys)"
  have c: "cell_of sys s3 (arrays sys ! k) < Index3D_getNumElements (m_cell_indexer s3)"
    using valid k by simp
  have "\<not> (\<exists>c < Index3D_getNumElements (m_cell_indexer s3). m_Nmax s3 < occupancy sys s3 c)"
    using none by (simp add: compute_valid(1) [OF flags due ok N valid] split: if_splits)
  then have "occupancy sys s3 (cell_of sys s3 (arrays sys ! k)) \<le> m_Nmax s3"
    using c by (meson not_le)
  from compute_records [OF ok N valid k this]
  show "\<exists>slot < m_cell_size (snd (compute sys t s)) ! cell_of sys s3 (arrays sys ! k).
          m_xyzf (snd (compute sys t s)) ! (cell_of sys s3 (arrays sys ! k) * m_Nmax s3 + slot) =
            record_of s3 k (arrays sys ! k)"
    by (simp add: compute_valid(1) [OF flags due ok N valid]) blast
qed

text \<open>33 particles at the origin of a single cell of capacity 32.\<close>

theorem C2_overflow_after_full_sweep_witness:
  "fst (compute (sys_of box_1 (replicate 33 origin)) 0 cl_1) = Some (BucketOverflow 32) \<and>
   m_cell_size (snd (compute (sys_of box_1 (replicate 33 origin)) 0 cl_1)) ! 0 = 33"
proof -
  have occ: "occupancy (sys_of box_1 (replicate 33 origin)) cl_1 0 = 33"
    by (simp add: occupancy_def)
  show ?thesis
    using C2_overflow_after_full_sweep [of "sys_of box_1 (replicate 33 origin)" cl_1 cl_1 False 0]
    by (simp add: occ)
qed


lemma has_nan_nan_particle [simp]: "has_nan nan_particle"
  by (simp add: has_nan_def nan_particle_def particle_at_def)

lemma compute_first_fault:
  assumes flags: "compute_flags sys s = (s3, force)"
    and due: "shouldCompute sys t \<or> force"
    and ok: "storage_ok s3"
    and ps: "arrays sys = good @ p # rest"
    and valid: "\<forall>q \<in> set good. \<not> has_nan q \<and>
                  cell_of sys s3 q < Index3D_getNumElements (m_cell_indexer s3)"
    and bad: "has_nan p \<or> Index3D_getNumElements (m_cell_indexer s3) \<le> cell_of sys s3 p"
  shows "compute sys t s =
           (Some (if has_nan p then InvalidPosition (length good) else OutOfBoundsCell (length good)),
            fill (cell_of sys s3) 0 good
              (s3\<lparr> m_overflowed := False,
                  m_cell_size := replicate (Index3D_getNumElements (m_cell_indexer s3)) 0 \<rparr>))"
proof (cases "has_nan p")
  case True
  have "computeCellList sys (s3\<lparr> m_overflowed := False \<rparr>) =
     (Some (InvalidPosition (length good)),
      fill (cell_of sys (s3\<lparr> m_overflowed := False \<rparr>)) 0 good
        (s3\<lparr> m_overflowed := False,
            m_cell_size := replicate (Index3D_getNumElements (m_cell_indexer (s3\<lparr> m_overflowed := False \<rparr>))) 0 \<rparr>))"
    by (rule computeCellList_nan [OF _ ps _ True]) (use ok valid in simp_all)
  then show ?thesis using True by (simp add: compute_rebuild [OF flags due])
next
  case False
  have "computeCellList sys (s3\<lparr> m_overflowed := False \<rparr>) =
     (Some (OutOfBoundsCell (length good)),
      fill (cell_of sys (s3\<lparr> m_overflowed := False \<rparr>)) 0 good
        (s3\<lparr> m_overflowed := False,
            m_cell_size := replicate (Index3D_getNumElements (m_cell_indexer (s3\<lparr> m_overflowed := False \<rparr>))) 0 \<rparr>))"
    by (rule computeCellList_out_of_bounds [OF _ ps _ False]) (use ok valid bad False in simp_all)
  then show ?thesis using False by (simp add: compute_rebuild [OF flags due])
qed

lemma first_bad_split:
  assumes "\<exists>p \<in> set ps. P p"
  shows "\<exists>good p rest. ps = good @ p # rest \<and> P p \<and> (\<forall>q \<in> set good. \<not> P q)"
  using split_list_first_prop [OF assms] by blast

lemma compute_fault_raised:
  assumes flags: "compute_flags sys s = (s3, force)"
    and due: "shouldCompute sys t \<or> force"
    and ok: "storage_ok s3"
    and bad: "\<exists>p \<in> set (arrays sys).
                has_nan p \<or> Index3D_getNumElements (m_cell_indexer s3) \<le> cell_of sys s3 p"
  shows "\<exists>n. fst (compute sys t s) = Some (InvalidPosition n) \<or>
              fst (compute sys t s) = Some (OutOfBoundsCell n)"
proof -
  let ?bad = "\<lambda>p. has_nan p \<or> Index3D_getNumElements (m_cell_indexer s3) \<le> cell_of sys s3 p"
  obtain good p rest where ps: "arrays sys = good @ p # rest" and p: "?bad p"
    and g: "\<forall>q \<in> set good. \<not> ?bad q"
    using first_bad_split [of "arrays sys" ?bad] bad by blast
  have valid: "\<forall>q \<in> set good. \<not> has_nan q \<and>
                 cell_of sys s3 q < Index3D_getNumElements (m_cell_indexer s3)"
    using g by (simp add: not_le)
  have "fst (compute sys t s) =
          Some (if has_nan p then InvalidPosition (length good) else OutOfBoundsCell (length good))"
    by (simp add: compute_first_fault [OF flags due ok ps valid p])
  then show ?thesis by (cases "has_nan p") auto
qed

text \<open>
  C7. Consumers read the arrays after \<^verbatim>\<open>compute\<close> has returned; a \<^verbatim>\<open>throw\<close> is the result
  \<open>Some e\<close>, and what \<^verbatim>\<open>compute\<close> hands over is published when the result is \<open>None\<close>. For a call
  that rebuilds:
  \<^item> the first particle that has a NaN coordinate or maps outside the cell range stops the
    sweep at once. \<^verbatim>\<open>compute\<close> raises \<open>InvalidPosition\<close> for a NaN (\<open>OutOfBoundsCell\<close>
    otherwise), never \<open>BucketOverflow\<close>, even when a bucket has overflowed before; the
    particle is not binned and no later particle is looked at: the arrays, written in
    place, hold the particles before it and the counters count those;
  \<^item> a NaN anywhere leads to a fault, as do a cell id out of range and a cell over capacity:
    none of the three conditions lets \<^verbatim>\<open>compute\<close> return normally;
  \<^item> so when \<^verbatim>\<open>compute\<close> returns normally the buckets are complete: the record of every
    particle is in an occupied slot of the bucket of its cell.
\<close>

theorem C7_faults_are_hard_failures:
  assumes flags: "compute_flags sys s = (s3, force)"
    and due: "shouldCompute sys t \<or> force"
    and ok: "storage_ok s3"
    and N: "length (arrays sys) < 2 ^ 32"
  shows "(\<forall>good p rest.
            arrays sys = good @ p # rest \<longrightarrow>
            (\<forall>q \<in> set good. \<not> has_nan q \<and>
                 cell_of sys s3 q < Index3D_getNumElements (m_cell_indexer s3)) \<longrightarrow>
            has_nan p \<or> Index3D_getNumElements (m_cell_indexer s3) \<le> cell_of sys s3 p \<longrightarrow>
              fst (compute sys t s) =
                Some (if has_nan p then InvalidPosition (length good)
                      else OutOfBoundsCell (length good)) \<and>
              snd (compute sys t s) =
                fill (cell_of sys s3) 0 good
                  (s3\<lparr> m_overflowed := False,
                      m_cell_size := replicate (Index3D_getNumElements (m_cell_indexer s3)) 0 \<rparr>) \<and>
              (\<forall>c < Index3D_getNumElements (m_cell_indexer s3).
                 m_cell_size (snd (compute sys t s)) ! c =
                   length (filter (\<lambda>q. cell_of sys s3 q = c) good))) \<and>
         ((\<exists>p \<in> set (arrays sys). has_nan p) \<longrightarrow>
            (\<exists>n. fst (compute sys t s) = Some (InvalidPosition n) \<or>
                 fst (compute sys t s) = Some (OutOfBoundsCell n))) \<and>
         ((\<exists>p \<in> set (arrays sys).
              has_nan p \<or> Index3D_getNumElements (m_cell_indexer s3) \<le> cell_of sys s3 p) \<or>
          (\<exists>c < Index3D_getNumElements (m_cell_indexer s3). m_Nmax s3 < occupancy sys s3 c) \<longrightarrow>
            fst (compute sys t s) \<noteq> None) \<and>
         (fst (compute sys t s) = None \<longrightarrow>
            (\<forall>k < length (arrays sys).
               \<exists>slot < m_cell_size (snd (compute sys t s)) ! cell_of sys s3 (arrays sys ! k).
                 m_xyzf (snd (compute sys t s)) ! (cell_of sys s3 (arrays sys ! k) * m_Nmax s3 + slot) =
                   record_of s3 k (arrays sys ! k)))"
proof -
  let ?nc = "Index3D_getNumElements (m_cell_indexer s3)"
  let ?s0 = "s3\<lparr> m_overflowed := False, m_cell_size := replicate ?nc 0 \<rparr>"
  let ?bad = "\<lambda>p. has_nan p \<or> ?nc \<le> cell_of sys s3 p"
  have first: "fst (compute sys t s) =
                 Some (if has_nan p then InvalidPosition (length good)
                       else OutOfBoundsCell (length good)) \<and>
               snd (compute sys t s) = fill (cell_of sys s3) 0 good ?s0 \<and>
               (\<forall>c < ?nc. m_cell_size (snd (compute sys t s)) ! c =
                    length (filter (\<lambda>q. cell_of sys s3 q = c) good))"
    if ps: "arrays sys = good @ p # rest"
      and valid: "\<forall>q \<in> set good. \<not> has_nan q \<and> cell_of sys s3 q < ?nc"
      and bad: "?bad p"
    for good p rest
  proof -
    have e: "compute sys t s =
             (Some (if has_nan p then InvalidPosition (length good)
                    else OutOfBoundsCell (length good)),
              fill (cell_of sys s3) 0 good ?s0)"
      by (rule compute_first_fault [OF flags due ok ps valid bad])
    have "m_cell_size (fill (cell_of sys s3) 0 good ?s0) ! c =
            length (filter (\<lambda>q. cell_of sys s3 q = c) good)"
      if c: "c < ?nc" for c
    proof -
      have "m_cell_size (fill (cell_of sys s3) 0 good ?s0) ! c =
            m_cell_size ?s0 ! c + length (filter (\<lambda>q. cell_of sys s3 q = c) good)"
        by (rule fill_cell_size) (use c N ps in simp_all)
      then show ?thesis using c by simp
    qed
    then show ?thesis by (simp add: e)
  qed
  have nan: "\<exists>n. fst (compute sys t s) = Some (InvalidPosition n) \<or>
                  fst (compute sys t s) = Some (OutOfBoundsCell n)"
    if "\<exists>p \<in> set (arrays sys). has_nan p"
  proof -
    from that have "\<exists>p \<in> set (arrays sys). ?bad p" by blast
    then show ?thesis by (rule compute_fault_raised [OF flags due ok])
  qed
  have valid_or_fault: "fst (compute sys t s) \<noteq> None" if "\<exists>p \<in> set (arrays sys). ?bad p"
    using compute_fault_raised [OF flags due ok that] by auto
  have over: "fst (compute sys t s) \<noteq> None"
    if nb: "\<not> (\<exists>p \<in> set (arrays sys). ?bad p)" and ov: "\<exists>c < ?nc. m_Nmax s3 < occupancy sys s3 c"
  proof -
    have valid: "\<forall>p \<in> set (arrays sys). \<not> has_nan p \<and> cell_of sys s3 p < ?nc"
      using nb by (simp add: not_le)
    show ?thesis using ov by (simp add: compute_valid(1) [OF flags due ok N valid])
  qed
  have hard: "fst (compute sys t s) \<noteq> None"
    if "(\<exists>p \<in> set (arrays sys). ?bad p) \<or> (\<exists>c < ?nc. m_Nmax s3 < occupancy sys s3 c)"
    using that valid_or_fault over by blast
  have complete:
    "\<exists>slot < m_cell_size (snd (compute sys t s)) ! cell_of sys s3 (arrays sys ! k).
       m_xyzf (snd (compute sys t s)) ! (cell_of sys s3 (arrays sys ! k) * m_Nmax s3 + slot) =
         record_of s3 k (arrays sys ! k)"
    if none: "fst (compute sys t s) = None" and k: "k < length (arrays sys)" for k
  proof -
    have nb: "\<not> (\<exists>p \<in> set (arrays sys). ?bad p)" using none valid_or_fault by blast
    then have valid: "\<forall>p \<in> set (arrays sys). \<not> has_nan p \<and> cell_of sys s3 p < ?nc"
      by (simp add: not_le)
    have no: "\<not> (\<exists>c < ?nc. m_Nmax s3 < occupancy sys s3 c)" using none nb over by blast
    have c: "cell_of sys s3 (arrays sys ! k) < ?nc" using valid k by simp
    have "occupancy sys s3 (cell_of sys s3 (arrays sys ! k)) \<le> m_Nmax s3"
      using no c by (meson not_le)
    from compute_records [OF ok N valid k this]
    show ?thesis by (simp add: compute_valid(1) [OF flags due ok N valid]) blast
  qed
  show ?thesis
    apply (intro conjI allI impI)
    subgoal for good p rest using first [of good p rest] by blast
    subgoal for good p rest using first [of good p rest] by blast
    subgoal for good p rest c using first [of good p rest] by blast
    subgoal using nan by blast
    subgoal using hard by blast
    subgoal for k using complete [of k] by blast
    done
qed

text \<open>
  A NaN between two particles at the origin of a single cell: the fault names particle 1
  and the counter of the cell stands at 1. A particle at box hi alone: the call returns
  normally and the record of the particle is in slot 0.
\<close>

theorem C7_faults_are_hard_failures_witness:
  "fst (compute (sys_of box_1 [origin, nan_particle, origin]) 0 cl_1) = Some (InvalidPosition 1) \<and>
   m_cell_size (snd (compute (sys_of box_1 [origin, nan_particle, origin]) 0 cl_1)) ! 0 = 1 \<and>
   fst (compute (sys_of box_1 [corner]) 0 cl_1) = None \<and>
   m_xyzf (snd (compute (sys_of box_1 [corner]) 0 cl_1)) ! 0 =
     (1065353216, 1065353216, 1065353216, 0)"
proof -
  let ?sys = "sys_of box_1 [origin, nan_particle, origin]"
  have f: "compute_flags ?sys cl_1 = (cl_1, False)" "shouldCompute ?sys 0 \<or> False"
    "storage_ok cl_1" "length (arrays ?sys) < 2 ^ 32"
    by simp_all
  note t = C7_faults_are_hard_failures [OF f, THEN conjunct1, rule_format,
             of "[origin]" nan_particle "[origin]"]
  have v: "\<forall>q \<in> set [origin]. \<not> has_nan q \<and>
               cell_of ?sys cl_1 q < Index3D_getNumElements (m_cell_indexer cl_1)"
    by simp
  have a: "fst (compute ?sys 0 cl_1) = Some (InvalidPosition 1)"
    using t [THEN conjunct1] v by simp
  have "m_cell_size (snd (compute ?sys 0 cl_1)) ! 0 =
          length (filter (\<lambda>q. cell_of ?sys cl_1 q = 0) [origin])"
    using t [THEN conjunct2, THEN conjunct2, rule_format, of 0] v by simp
  then have b: "m_cell_size (snd (compute ?sys 0 cl_1)) ! 0 = 1" by simp
  let ?one = "sys_of box_1 [corner]"
  have g: "compute_flags ?one cl_1 = (cl_1, False)" "shouldCompute ?one 0 \<or> False"
    "storage_ok cl_1" "length (arrays ?one) < 2 ^ 32"
    by simp_all
  have occ: "occupancy ?one cl_1 0 = 1" by (simp add: occupancy_def)
  have valid: "\<forall>p \<in> set (arrays ?one). \<not> has_nan p \<and>
                 cell_of ?one cl_1 p < Index3D_getNumElements (m_cell_indexer cl_1)"
    by simp
  have none: "fst (compute ?one 0 cl_1) = None"
    by (simp add: compute_valid(1) [OF g valid] occ)
  note u = C7_faults_are_hard_failures [OF g, THEN conjunct2, THEN conjunct2, THEN conjunct2,
             rule_format, OF none, of 0]
  have cs: "m_cell_size (snd (compute ?one 0 cl_1)) ! 0 = 1"
    using compute_valid(2) [OF g valid] by (simp add: compute_valid(1) [OF g valid] occ)
  have r: "record_of cl_1 0 corner = (1065353216, 1065353216, 1065353216, 0)"
    by (simp add: record_of_def cl_1_def corner_def particle_at_def make_scalar4_def
          int_as_scalar_def)
  have c: "m_xyzf (snd (compute ?one 0 cl_1)) ! 0 = (1065353216, 1065353216, 1065353216, 0)"
    using u by (simp add: cs r)
  show ?thesis using a b c none by simp
qed

subsection \<open>Geometry of the binning\<close>

text \<open>
  One axis. The scaled coordinate of a position between box lo and box hi is at least 0
  and, after all roundings, at most \<open>dim + 1 / 2\<close>; at box hi it is at least \<open>dim - 1 / 2\<close>.
  So the bin before the exception is at most \<open>dim\<close>, and at box hi it is \<open>dim\<close> or \<open>dim - 1\<close>.
\<close>

lemma axis_scaled:
  fixes lo hi x :: real and d :: nat
  assumes d: "1 \<le> d" "d \<le> 2 ^ 21"
    and L: "2 powi (- 100) \<le> fsub hi lo" "fsub hi lo \<le> 2 ^ 100"
    and x: "lo \<le> x" "x \<le> hi"
  defines "w \<equiv> fdiv (fsub hi lo) (uint_to_float d)"
  defines "t \<equiv> fmul (fsub x lo) (fdiv 1 w)"
  shows "0 \<le> t" "t \<le> real d + 1 / 2" "x = hi \<Longrightarrow> real d - 1 / 2 \<le> t"
proof -
  define sc where "sc = fdiv 1 w"
  have w': "w = rnd (fsub hi lo / rnd (real d))" by (simp add: w_def fdiv_def uint_to_float_def)
  have sc': "sc = rnd (1 / w)" by (simp add: sc_def fdiv_def)
  note se = scaled_extent [OF d L w' sc']
  have u0: "0 \<le> fsub x lo" unfolding fsub_def using x(1) by (intro rnd_nonneg) simp
  have uL: "fsub x lo \<le> fsub hi lo" unfolding fsub_def using x(2) by (intro rnd_mono) simp
  have t: "t = rnd (fsub x lo * sc)" by (simp add: t_def fmul_def sc_def)
  show "0 \<le> t" unfolding t using u0 se(1) by (intro rnd_nonneg) simp
  have "fsub x lo * sc \<le> fsub hi lo * sc" using uL se(1) by (rule mult_right_mono)
  then have "t \<le> rnd (fsub hi lo * sc)" unfolding t by (rule rnd_mono)
  then show "t \<le> real d + 1 / 2" using se(3) by linarith
  show "real d - 1 / 2 \<le> t" if "x = hi" using se(2) that by (simp add: t)
qed

lemma axis_bin:
  fixes lo hi x :: real and d :: nat
  assumes d: "1 \<le> d" "d \<le> 2 ^ 21"
    and L: "2 powi (- 100) \<le> fsub hi lo" "fsub hi lo \<le> 2 ^ 100"
    and x: "lo \<le> x" "x \<le> hi"
  defines "w \<equiv> fdiv (fsub hi lo) (uint_to_float d)"
  defines "t \<equiv> fmul (fsub x lo) (fdiv 1 w)"
  defines "ib0 \<equiv> float_to_uint t"
  defines "ib \<equiv> (if ib0 = d then 0 else ib0)"
  shows "ib < d"
    and "x = hi \<Longrightarrow> ib = (if real d \<le> t then 0 else d - 1)"
proof -
  have t0: "0 \<le> t" and tu: "t \<le> real d + 1 / 2"
    unfolding t_def w_def using d L x by (rule axis_scaled)+
  have "real d \<le> 2 ^ 21" using d(2) by (metis of_nat_le_iff of_nat_numeral of_nat_power)
  then have "t < 2 ^ 32" using tu by simp
  then have ib0: "ib0 = nat \<lfloor>t\<rfloor>" unfolding ib0_def using t0 by (intro float_to_uint_floor)
  have "\<lfloor>t\<rfloor> \<le> int d" using tu by (simp add: floor_le_iff)
  then have le: "ib0 \<le> d" by (simp add: ib0)
  show "ib < d" using le d(1) by (simp add: ib_def)
  show "ib = (if real d \<le> t then 0 else d - 1)" if h: "x = hi"
  proof -
    have tl: "real d - 1 / 2 \<le> t"
      unfolding t_def w_def using d L x h by (rule axis_scaled)
    show ?thesis
    proof (cases "real d \<le> t")
      case True
      then have "int d \<le> \<lfloor>t\<rfloor>" by (simp add: le_floor_iff)
      then have "ib0 = d" using le by (simp add: ib0)
      then show ?thesis using True by (simp add: ib_def)
    next
      case False
      then have "\<lfloor>t\<rfloor> < int d" by (simp add: floor_less_iff)
      moreover have "int d - 1 \<le> \<lfloor>t\<rfloor>"
      proof -
        have "real_of_int (int d - 1) \<le> real d - 1 / 2" by simp
        then have "real_of_int (int d - 1) \<le> t" using tl by linarith
        then show ?thesis by (simp only: le_floor_iff)
      qed
      ultimately have "\<lfloor>t\<rfloor> = int d - 1" by simp
      then have "ib0 = d - 1" using d(1) by (simp add: ib0 nat_diff_distrib)
      then show ?thesis using False d(1) by (simp add: ib_def)
    qed
  qed
qed



lemma grid_ok_dims:
  assumes "grid_ok sys s" "m_dim s = (dx, dy, dz)"
  shows "1 \<le> dx" "1 \<le> dy" "1 \<le> dz" "dx < 2 ^ 32" "dy < 2 ^ 32" "dz < 2 ^ 32"
    "dx * dy * dz < 2 ^ 32"
proof -
  show 1: "1 \<le> dx" "1 \<le> dy" "1 \<le> dz" and p: "dx * dy * dz < 2 ^ 32"
    using assms by (simp_all add: grid_ok_def)
  have "0 < dy * dz" "0 < dx * dz" "0 < dx * dy" using 1 by simp_all
  then have "dx \<le> dx * (dy * dz)" "dy \<le> dy * (dx * dz)" "dz \<le> dz * (dx * dy)" by simp_all
  moreover have "dx * (dy * dz) = dx * dy * dz" "dy * (dx * dz) = dx * dy * dz"
    "dz * (dx * dy) = dx * dy * dz" by (simp_all add: ac_simps)
  ultimately have "dx \<le> dx * dy * dz" "dy \<le> dx * dy * dz" "dz \<le> dx * dy * dz" by simp_all
  then show "dx < 2 ^ 32" "dy < 2 ^ 32" "dz < 2 ^ 32" using p by linarith+
qed

lemma grid_ok_numElements:
  assumes "grid_ok sys s" "m_dim s = (dx, dy, dz)"
  shows "Index3D_getNumElements (m_cell_indexer s) = dx * dy * dz"
  using assms grid_ok_dims(7) [OF assms]
  by (simp add: grid_ok_def Index3D_getNumElements_def uint_id)

lemma grid_bins:
  assumes g: "grid_ok sys s" and b: "in_box (getBox sys) p"
    and d: "m_dim s = (dx, dy, dz)" and bc: "bin_coords sys s p = (ib, jb, kb)"
  shows "ib < dx" "jb < dy" "kb < dz" "cell_of sys s p = (kb * dy + jb) * dx + ib"
    "cell_of sys s p < Index3D_getNumElements (m_cell_indexer s)"
proof -
  let ?box = "getBox sys"
  define wx where "wx = fdiv (fsub (xhi ?box) (xlo ?box)) (uint_to_float dx)"
  define wy where "wy = fdiv (fsub (yhi ?box) (ylo ?box)) (uint_to_float dy)"
  define wz where "wz = fdiv (fsub (zhi ?box) (zlo ?box)) (uint_to_float dz)"
  have w: "m_width s = (wx, wy, wz)" using g by (simp add: grid_ok_def d wx_def wy_def wz_def)
  have ci: "m_cell_indexer s = \<lparr> i3_w = dx, i3_h = dy, i3_d = dz \<rparr>"
    using g by (simp add: grid_ok_def d)
  have r: "1 \<le> dx" "dx \<le> 2 ^ 21" "1 \<le> dy" "dy \<le> 2 ^ 21" "1 \<le> dz" "dz \<le> 2 ^ 21"
    "2 powi (- 100) \<le> fsub (xhi ?box) (xlo ?box)" "fsub (xhi ?box) (xlo ?box) \<le> 2 ^ 100"
    "2 powi (- 100) \<le> fsub (yhi ?box) (ylo ?box)" "fsub (yhi ?box) (ylo ?box) \<le> 2 ^ 100"
    "2 powi (- 100) \<le> fsub (zhi ?box) (zlo ?box)" "fsub (zhi ?box) (zlo ?box) \<le> 2 ^ 100"
    using g unfolding grid_ok_def d by simp_all
  have pb: "xlo ?box \<le> num (p_x p)" "num (p_x p) \<le> xhi ?box"
    "ylo ?box \<le> num (p_y p)" "num (p_y p) \<le> yhi ?box"
    "zlo ?box \<le> num (p_z p)" "num (p_z p) \<le> zhi ?box"
    using b by (simp_all add: in_box_def)
  have e: "(ib, jb, kb) = find_bin ?box (fdiv 1 wx, fdiv 1 wy, fdiv 1 wz) (dx, dy, dz) p"
    using bc by (simp add: bin_coords_def w d)
  have ib: "ib = (if float_to_uint (fmul (fsub (num (p_x p)) (xlo ?box)) (fdiv 1 wx)) = dx then 0
                  else float_to_uint (fmul (fsub (num (p_x p)) (xlo ?box)) (fdiv 1 wx)))"
    and jb: "jb = (if float_to_uint (fmul (fsub (num (p_y p)) (ylo ?box)) (fdiv 1 wy)) = dy then 0
                  else float_to_uint (fmul (fsub (num (p_y p)) (ylo ?box)) (fdiv 1 wy)))"
    and kb: "kb = (if float_to_uint (fmul (fsub (num (p_z p)) (zlo ?box)) (fdiv 1 wz)) = dz then 0
                  else float_to_uint (fmul (fsub (num (p_z p)) (zlo ?box)) (fdiv 1 wz)))"
    using e by (simp_all add: find_bin_def Let_def)
  show x: "ib < dx" unfolding ib wx_def by (rule axis_bin(1) [OF r(1,2,7,8) pb(1,2)])
  show y: "jb < dy" unfolding jb wy_def by (rule axis_bin(1) [OF r(3,4,9,10) pb(3,4)])
  show z: "kb < dz" unfolding kb wz_def by (rule axis_bin(1) [OF r(5,6,11,12) pb(5,6)])
  have lt: "(kb * dy + jb) * dx + ib < dx * dy * dz" using x y z by (rule index3_bound)
  then have "(kb * dy + jb) * dx + ib < 2 ^ 32" using grid_ok_dims(7) [OF g d] by linarith
  then show c: "cell_of sys s p = (kb * dy + jb) * dx + ib"
    using bc by (simp add: cell_of_def bin_of_def bin_coords_def w ci Index3D_at_def uint_id d)
  show "cell_of sys s p < Index3D_getNumElements (m_cell_indexer s)"
    using lt by (simp add: c grid_ok_numElements [OF g d])
qed

lemma grid_valid:
  assumes "grid_ok sys s" "in_box (getBox sys) p"
  shows "\<not> has_nan p \<and> cell_of sys s p < Index3D_getNumElements (m_cell_indexer s)"
proof -
  obtain dx dy dz where d: "m_dim s = (dx, dy, dz)" by (cases "m_dim s") auto
  obtain ib jb kb where bc: "bin_coords sys s p = (ib, jb, kb)" by (cases "bin_coords sys s p") auto
  show ?thesis using grid_bins(5) [OF assms d bc] assms(2) by (simp add: in_box_def)
qed


subsection \<open>Two grids with rounded widths\<close>

text \<open>
  Seven cells on \<open>[0, 1]\<close>: the width \<open>1 / 7\<close> rounds up, its reciprocal rounds to
  \<open>7 - 2\<^sup>-\<^sup>2\<^sup>1\<close>, and that is the scaled coordinate of box hi.
\<close>

lemma rnd_64_9: "rnd (64 / 9) = 14913081 / 2097152"
  by (subst rnd_eval [of 2]) (simp_all add: rne_def)

lemma rnd_1_7: "rnd (1 / 7) = 9586981 / 67108864"
  by (subst rnd_eval [of "- 3"]) (simp_all add: rne_def)

lemma rnd_inv_w7: "rnd (67108864 / 9586981) = 14680063 / 2097152"
  by (subst rnd_eval [of 2]) (simp_all add: rne_def)

lemma rnd_s7: "rnd (14680063 / 2097152) = 14680063 / 2097152"
  using rnd_dyadic [of 14680063 21] by simp

lemma rnd_9_64: "rnd (9 / 64) = 9 / 64"
  using rnd_dyadic [of 9 6] by simp

lemma computeDimensions_7: "computeDimensions (sys_of box_7 ps) cl_7 = (7, 1, 1)"
  by (rule computeDimensions_3d_unscaled)
     (simp_all add: sys_of_def box_7_def cl_7_def CellList_new_def fsub_def fdiv_def rnd_64_9
        rnd_9_64 uint_def UINT_MAX_def float_to_uint_def trunc_def int_to_uint_def)

lemma estimate_Nmax_7: "estimate_Nmax (Suc 0) (7, Suc 0, Suc 0) = Suc 0"
proof -
  have l: "rnd (11 / 10) = 9227469 / 8388608"
    by (subst rnd_eval [of 0]) (simp_all add: rne_def)
  have m: "fmul 1 (9227469 / 8388608) = 9227469 / 8388608"
    using rnd_dyadic [of 9227469 23] by (simp add: fmul_def)
  have "0 < (9227469 / 8388608 :: real) / 7" "(9227469 / 8388608 :: real) / 7 \<le> 1" by simp_all
  then have "rnd 0 \<le> fdiv (9227469 / 8388608) 7" "fdiv (9227469 / 8388608) 7 \<le> rnd 1"
    unfolding fdiv_def by (intro rnd_mono, simp)+
  moreover have "fdiv (9227469 / 8388608) 7 \<noteq> 0"
    unfolding fdiv_def by (subst rnd_eval [of "- 3"]) (simp_all add: rne_def)
  ultimately have "0 < fdiv (9227469 / 8388608) 7" "fdiv (9227469 / 8388608) 7 \<le> 1" by simp_all
  then have "\<lceil>fdiv (9227469 / 8388608) 7\<rceil> = 1" by (simp add: ceiling_eq_iff)
  then show ?thesis
    by (simp add: estimate_Nmax_def uint_def l m ceilf_def)
qed

lemma s7_fields:
  defines "s \<equiv> (initializeAll (sys_of box_7 [at_hi]) cl_7)\<lparr> m_params_changed := False \<rparr>"
  shows "m_dim s = (7, 1, 1)"
    "m_width s = (9586981 / 67108864, 9 / 64, 9 / 64)"
    "m_cell_indexer s = \<lparr> i3_w = 7, i3_h = 1, i3_d = 1 \<rparr>"
    "m_Nmax s = 32"
    "storage_ok s"
    "compute_flags (sys_of box_7 [at_hi]) cl_7 = (s, True)"
proof -
  let ?sys = "sys_of box_7 [at_hi]"
  note d = computeDimensions_7 [of "[at_hi]"]
  show "m_dim s = (7, 1, 1)" by (simp add: s_def initializeAll_fields d)
  show "m_width s = (9586981 / 67108864, 9 / 64, 9 / 64)"
    by (simp add: s_def initializeAll_fields d)
       (simp add: box_7_def fsub_def fdiv_def rnd_1_7 rnd_9_64)
  show "m_cell_indexer s = \<lparr> i3_w = 7, i3_h = 1, i3_d = 1 \<rparr>"
    by (simp add: s_def initializeAll_fields d)
  have r: "round_Nmax (Suc 0) = 32" by (simp add: round_Nmax_def uint_def)
  show n: "m_Nmax s = 32"
    by (simp add: s_def initializeAll_fields d getN_def estimate_Nmax_7 r)
  have "storage_ok (initializeAll ?sys cl_7)"
    by (rule initializeAll_storage_ok [OF d])
       (simp_all add: getN_def estimate_Nmax_7 r)
  then show "storage_ok s" by (simp add: s_def storage_ok_def)
  show "compute_flags ?sys cl_7 = (s, True)"
    unfolding s_def by (rule compute_flags_first) (simp_all add: cl_7_def CellList_new_def)
qed

lemma bin_coords_at_hi:
  "bin_coords (sys_of box_7 [at_hi])
     ((initializeAll (sys_of box_7 [at_hi]) cl_7)\<lparr> m_params_changed := False \<rparr>) at_hi = (6, 0, 0)"
proof -
  have sx: "fdiv 1 (9586981 / 67108864) = 14680063 / 2097152"
    by (simp add: fdiv_def rnd_inv_w7)
  have u: "fsub (num (p_x at_hi)) (xlo box_7) = 1"
    by (simp add: at_hi_def particle_at_def box_7_def fsub_def)
  have t: "fmul 1 (14680063 / 2097152) = 14680063 / 2097152"
    by (simp add: fmul_def rnd_s7)
  have x: "float_to_uint (14680063 / 2097152) = 6"
    by (simp add: float_to_uint_def trunc_def int_to_uint_def)
  have y: "fmul (fsub (num (p_y at_hi)) (ylo box_7)) sy = 0"
    "fmul (fsub (num (p_z at_hi)) (zlo box_7)) sz = 0" for sy sz
    by (simp_all add: at_hi_def particle_at_def box_7_def fsub_def fmul_def)
  show ?thesis
    unfolding bin_coords_def s7_fields(1,2) sys_of_fields
    by (simp add: find_bin_def sx u t x y)
qed

lemma grid_ok_7:
  "grid_ok (sys_of box_7 [at_hi])
     ((initializeAll (sys_of box_7 [at_hi]) cl_7)\<lparr> m_params_changed := False \<rparr>)"
  by (simp add: grid_ok_def s7_fields)
     (simp add: box_7_def fsub_def fdiv_def rnd_1_7 rnd_9_64)












subsection \<open>A particle at box hi\<close>

lemma fill_width [simp]: "m_width (fill b n ps s) = m_width s"
  by (subst fill_frame) simp

lemma cell_of_fill [simp]: "cell_of sys (fill b n ps s) = cell_of sys s"
  by (rule ext) (simp add: cell_of_def)

lemma bin_coords_fill [simp]: "bin_coords sys (fill b n ps s) = bin_coords sys s"
  by (rule ext) (simp add: bin_coords_def)

lemma bin_coords_upd [simp]:
  "bin_coords sys (s\<lparr> m_cell_size := cs \<rparr>) = bin_coords sys s"
  "bin_coords sys (s\<lparr> m_overflowed := ov \<rparr>) = bin_coords sys s"
  by (rule ext, simp add: bin_coords_def)+

lemma grid_ok_fill [simp]: "grid_ok sys (fill b n ps s) = grid_ok sys s"
  by (simp add: grid_ok_def)

lemma grid_ok_upd [simp]:
  "grid_ok sys (s\<lparr> m_cell_size := cs \<rparr>) = grid_ok sys s"
  "grid_ok sys (s\<lparr> m_overflowed := ov \<rparr>) = grid_ok sys s"
  by (simp_all add: grid_ok_def)

lemma in_box_at_hi [simp]: "in_box box_7 at_hi"
  by (simp add: in_box_def has_nan_def at_hi_def particle_at_def box_7_def)

text \<open>
  The first \<^verbatim>\<open>compute\<close> of the seven-cell grid with the particle at box hi: it succeeds and
  leaves the grid as \<^verbatim>\<open>initializeAll\<close> set it up, with the particle counted in the cell
  that \<open>cell_of\<close> names.
\<close>

lemma compute_7:
  defines "sys \<equiv> sys_of box_7 [at_hi]"
  defines "s3 \<equiv> (initializeAll (sys_of box_7 [at_hi]) cl_7)\<lparr> m_params_changed := False \<rparr>"
  shows "cell_of sys s3 at_hi = 6"
    and "compute sys 0 cl_7 =
           (None, fill (cell_of sys s3) 0 [at_hi]
                    (s3\<lparr> m_overflowed := False, m_cell_size := replicate 7 0 \<rparr>))"
    and "m_cell_size (snd (compute sys 0 cl_7)) = [0, 0, 0, 0, 0, 0, 1]"
proof -
  have g: "grid_ok sys s3" unfolding sys_def s3_def by (rule grid_ok_7)
  have bc: "bin_coords sys s3 at_hi = (6, 0, 0)" unfolding sys_def s3_def by (rule bin_coords_at_hi)
  have d: "m_dim s3 = (7, 1, 1)" unfolding s3_def by (rule s7_fields)
  have ib: "in_box (getBox sys) at_hi" by (simp add: sys_def)
  show c: "cell_of sys s3 at_hi = 6" using grid_bins(4) [OF g ib d bc] by simp
  have ne: "Index3D_getNumElements (m_cell_indexer s3) = 7"
    using grid_ok_numElements [OF g d] by simp
  have flags: "compute_flags sys cl_7 = (s3, True)" unfolding sys_def s3_def by (rule s7_fields)
  have ok: "storage_ok s3" unfolding s3_def by (rule s7_fields)
  have nmax: "m_Nmax s3 = 32" unfolding s3_def by (rule s7_fields)
  have N: "length (arrays sys) < 2 ^ 32" by (simp add: sys_def)
  have valid: "\<forall>p \<in> set (arrays sys). \<not> has_nan p \<and>
                 cell_of sys s3 p < Index3D_getNumElements (m_cell_indexer s3)"
    using grid_valid [OF g ib] by (simp add: sys_def)
  have occ: "occupancy sys s3 c = (if c = 6 then 1 else 0)" for c
    using c by (auto simp add: occupancy_def sys_def)
  have no: "\<not> (\<exists>c < Index3D_getNumElements (m_cell_indexer s3). m_Nmax s3 < occupancy sys s3 c)"
    by (simp add: occ nmax)
  show e: "compute sys 0 cl_7 =
           (None, fill (cell_of sys s3) 0 [at_hi]
                    (s3\<lparr> m_overflowed := False, m_cell_size := replicate 7 0 \<rparr>))"
    using compute_valid(1) [OF flags _ ok N valid, of 0] no by (simp add: ne) (simp add: sys_def)
  have "m_cell_size (snd (compute sys 0 cl_7)) =
          (m_cell_size (s3\<lparr> m_overflowed := False, m_cell_size := replicate 7 0 \<rparr>))[6 := 1]"
    unfolding e snd_conv
    by (simp add: c bin_step_def Let_def uint_def)
  then show "m_cell_size (snd (compute sys 0 cl_7)) = [0, 0, 0, 0, 0, 0, 1]"
    by (simp add: numeral_eq_Suc)
qed

text \<open>
  C4, as stated, fails: a particle exactly at box hi is not always binned into cell 0. In
  the box \<open>[0, 1]\<close> with seven cells the scaled coordinate of box hi is \<open>7 - 2\<^sup>-\<^sup>2\<^sup>1\<close>, the
  exception for a bin equal to \<open>dim\<close> does not apply, and the particle is counted in the last
  cell.
\<close>

theorem C4_counterexample:
  "num (p_x at_hi) = xhi box_7 \<and>
   fst (compute (sys_of box_7 [at_hi]) 0 cl_7) = None \<and>
   m_dim (snd (compute (sys_of box_7 [at_hi]) 0 cl_7)) = (7, 1, 1) \<and>
   bin_coords (sys_of box_7 [at_hi]) (snd (compute (sys_of box_7 [at_hi]) 0 cl_7)) at_hi = (6, 0, 0) \<and>
   m_cell_size (snd (compute (sys_of box_7 [at_hi]) 0 cl_7)) = [0, 0, 0, 0, 0, 0, 1]"
proof -
  have "num (p_x at_hi) = xhi box_7" by (simp add: at_hi_def particle_at_def box_7_def)
  moreover have "fst (compute (sys_of box_7 [at_hi]) 0 cl_7) = None"
    by (simp add: compute_7(2))
  moreover have "m_dim (snd (compute (sys_of box_7 [at_hi]) 0 cl_7)) = (7, 1, 1)"
    using s7_fields(1) by (simp add: compute_7(2) del: fill.simps)
  moreover have "bin_coords (sys_of box_7 [at_hi]) (snd (compute (sys_of box_7 [at_hi]) 0 cl_7)) at_hi =
                   (6, 0, 0)"
    using bin_coords_at_hi by (simp add: compute_7(2) del: fill.simps)
  ultimately show ?thesis using compute_7(3) by simp
qed

text \<open>
  C4, amended. In a grid that satisfies the grid invariant a particle exactly at box hi on
  an axis gets a bin on that axis that is in range: bin 0 when its scaled coordinate, as
  computed, reaches \<open>dim\<close>, and the last bin \<open>dim - 1\<close> when the rounding of the width and of
  its reciprocal leaves the scaled coordinate below \<open>dim\<close>.
\<close>

theorem C4_box_hi_is_binned_in_range:
  assumes g: "grid_ok sys s"
  shows "(num (p_x p) = xhi (getBox sys) \<longrightarrow>
            fst (bin_coords sys s p) < fst (m_dim s) \<and>
            fst (bin_coords sys s p) =
              (if real (fst (m_dim s)) \<le>
                    fmul (fsub (xhi (getBox sys)) (xlo (getBox sys))) (fdiv 1 (fst (m_width s)))
               then 0 else fst (m_dim s) - 1)) \<and>
         (num (p_y p) = yhi (getBox sys) \<longrightarrow>
            fst (snd (bin_coords sys s p)) < fst (snd (m_dim s)) \<and>
            fst (snd (bin_coords sys s p)) =
              (if real (fst (snd (m_dim s))) \<le>
                    fmul (fsub (yhi (getBox sys)) (ylo (getBox sys))) (fdiv 1 (fst (snd (m_width s))))
               then 0 else fst (snd (m_dim s)) - 1)) \<and>
         (num (p_z p) = zhi (getBox sys) \<longrightarrow>
            snd (snd (bin_coords sys s p)) < snd (snd (m_dim s)) \<and>
            snd (snd (bin_coords sys s p)) =
              (if real (snd (snd (m_dim s))) \<le>
                    fmul (fsub (zhi (getBox sys)) (zlo (getBox sys))) (fdiv 1 (snd (snd (m_width s))))
               then 0 else snd (snd (m_dim s)) - 1))"
proof -
  obtain dx dy dz where d: "m_dim s = (dx, dy, dz)" by (cases "m_dim s") auto
  let ?box = "getBox sys"
  define wx where "wx = fdiv (fsub (xhi ?box) (xlo ?box)) (uint_to_float dx)"
  define wy where "wy = fdiv (fsub (yhi ?box) (ylo ?box)) (uint_to_float dy)"
  define wz where "wz = fdiv (fsub (zhi ?box) (zlo ?box)) (uint_to_float dz)"
  have w: "m_width s = (wx, wy, wz)" using g by (simp add: grid_ok_def d wx_def wy_def wz_def)
  have r: "1 \<le> dx" "dx \<le> 2 ^ 21" "1 \<le> dy" "dy \<le> 2 ^ 21" "1 \<le> dz" "dz \<le> 2 ^ 21"
    "2 powi (- 100) \<le> fsub (xhi ?box) (xlo ?box)" "fsub (xhi ?box) (xlo ?box) \<le> 2 ^ 100"
    "2 powi (- 100) \<le> fsub (yhi ?box) (ylo ?box)" "fsub (yhi ?box) (ylo ?box) \<le> 2 ^ 100"
    "2 powi (- 100) \<le> fsub (zhi ?box) (zlo ?box)" "fsub (zhi ?box) (zlo ?box) \<le> 2 ^ 100"
    using g unfolding grid_ok_def d by simp_all
  have pos: "lo \<le> hi" if "2 powi (- 100) \<le> fsub hi lo" for lo hi :: real
  proof (rule ccontr)
    assume "\<not> lo \<le> hi"
    then have "hi - lo \<le> 0" by simp
    then have "rnd (hi - lo) \<le> rnd 0" by (rule rnd_mono)
    then have "fsub hi lo \<le> 0" by (simp add: fsub_def)
    moreover have "0 < (2::real) powi (- 100)" by (rule two_powi_pos)
    ultimately show False using that by linarith
  qed
  have bc: "bin_coords sys s p = find_bin ?box (fdiv 1 wx, fdiv 1 wy, fdiv 1 wz) (dx, dy, dz) p"
    by (simp add: bin_coords_def w d)
  have x: "fst (bin_coords sys s p) < dx \<and>
           fst (bin_coords sys s p) =
             (if real dx \<le> fmul (fsub (xhi ?box) (xlo ?box)) (fdiv 1 wx) then 0 else dx - 1)"
    if h: "num (p_x p) = xhi ?box"
  proof -
    have lo: "xlo ?box \<le> xhi ?box" using r(7) by (rule pos)
    have "fst (bin_coords sys s p) =
            (if float_to_uint (fmul (fsub (xhi ?box) (xlo ?box)) (fdiv 1 wx)) = dx then 0
             else float_to_uint (fmul (fsub (xhi ?box) (xlo ?box)) (fdiv 1 wx)))"
      by (simp add: bc find_bin_def Let_def h)
    then show ?thesis
      unfolding wx_def
      using axis_bin(1) [OF r(1,2,7,8) lo order_refl] axis_bin(2) [OF r(1,2,7,8) lo order_refl refl]
      by simp
  qed
  have y: "fst (snd (bin_coords sys s p)) < dy \<and>
           fst (snd (bin_coords sys s p)) =
             (if real dy \<le> fmul (fsub (yhi ?box) (ylo ?box)) (fdiv 1 wy) then 0 else dy - 1)"
    if h: "num (p_y p) = yhi ?box"
  proof -
    have lo: "ylo ?box \<le> yhi ?box" using r(9) by (rule pos)
    have "fst (snd (bin_coords sys s p)) =
            (if float_to_uint (fmul (fsub (yhi ?box) (ylo ?box)) (fdiv 1 wy)) = dy then 0
             else float_to_uint (fmul (fsub (yhi ?box) (ylo ?box)) (fdiv 1 wy)))"
      by (simp add: bc find_bin_def Let_def h)
    then show ?thesis
      unfolding wy_def
      using axis_bin(1) [OF r(3,4,9,10) lo order_refl] axis_bin(2) [OF r(3,4,9,10) lo order_refl refl]
      by simp
  qed
  have z: "snd (snd (bin_coords sys s p)) < dz \<and>
           snd (snd (bin_coords sys s p)) =
             (if real dz \<le> fmul (fsub (zhi ?box) (zlo ?box)) (fdiv 1 wz) then 0 else dz - 1)"
    if h: "num (p_z p) = zhi ?box"
  proof -
    have lo: "zlo ?box \<le> zhi ?box" using r(11) by (rule pos)
    have "snd (snd (bin_coords sys s p)) =
            (if float_to_uint (fmul (fsub (zhi ?box) (zlo ?box)) (fdiv 1 wz)) = dz then 0
             else float_to_uint (fmul (fsub (zhi ?box) (zlo ?box)) (fdiv 1 wz)))"
      by (simp add: bc find_bin_def Let_def h)
    then show ?thesis
      unfolding wz_def
      using axis_bin(1) [OF r(5,6,11,12) lo order_refl] axis_bin(2) [OF r(5,6,11,12) lo order_refl refl]
      by simp
  qed
  have e: "fst (m_dim s) = dx" "fst (snd (m_dim s)) = dy" "snd (snd (m_dim s)) = dz"
    "fst (m_width s) = wx" "fst (snd (m_width s)) = wy" "snd (snd (m_width s)) = wz"
    by (simp_all add: d w)
  show ?thesis unfolding e using x y z by blast
qed

lemma grid_ok_cl_1 [simp]: "grid_ok (sys_of box_1 ps) cl_1"
  by (simp add: grid_ok_def cl_1_def box_1_def fsub_def fdiv_def)

text \<open>
  In the unit box with a single cell the scaled coordinate of box hi is 1 on every axis
  and the particle is wrapped to bin 0; in the box with seven cells it stays in bin 6.
\<close>

theorem C4_box_hi_is_binned_in_range_witness:
  "bin_coords (sys_of box_1 [corner]) cl_1 corner = (0, 0, 0) \<and>
   fst (bin_coords (sys_of box_7 [at_hi])
          ((initializeAll (sys_of box_7 [at_hi]) cl_7)\<lparr> m_params_changed := False \<rparr>) at_hi) = 6"
proof -
  have h: "num (p_x corner) = xhi (getBox (sys_of box_1 [corner]))"
    "num (p_y corner) = yhi (getBox (sys_of box_1 [corner]))"
    "num (p_z corner) = zhi (getBox (sys_of box_1 [corner]))"
    by (simp_all add: corner_def particle_at_def box_1_def)
  have f: "m_dim cl_1 = (1, 1, 1)" "m_width cl_1 = (1, 1, 1)" by (simp_all add: cl_1_def)
  have t: "fmul (fsub 1 0) (fdiv 1 1) = 1" by (simp add: fsub_def fdiv_def fmul_def)
  note c4 = C4_box_hi_is_binned_in_range [OF grid_ok_cl_1 [of "[corner]"], of corner]
  have "fst (bin_coords (sys_of box_1 [corner]) cl_1 corner) = 0"
    using c4 [THEN conjunct1, rule_format, OF h(1)] by (simp add: f box_1_def t)
  moreover have "fst (snd (bin_coords (sys_of box_1 [corner]) cl_1 corner)) = 0"
    using c4 [THEN conjunct2, THEN conjunct1, rule_format, OF h(2)] by (simp add: f box_1_def t)
  moreover have "snd (snd (bin_coords (sys_of box_1 [corner]) cl_1 corner)) = 0"
    using c4 [THEN conjunct2, THEN conjunct2, rule_format, OF h(3)] by (simp add: f box_1_def t)
  ultimately have "fst (bin_coords (sys_of box_1 [corner]) cl_1 corner) = 0"
    "fst (snd (bin_coords (sys_of box_1 [corner]) cl_1 corner)) = 0"
    "snd (snd (bin_coords (sys_of box_1 [corner]) cl_1 corner)) = 0"
    by simp_all
  then have a: "bin_coords (sys_of box_1 [corner]) cl_1 corner = (0, 0, 0)"
    by (cases "bin_coords (sys_of box_1 [corner]) cl_1 corner") simp
  let ?s = "(initializeAll (sys_of box_7 [at_hi]) cl_7)\<lparr> m_params_changed := False \<rparr>"
  have h7: "num (p_x at_hi) = xhi (getBox (sys_of box_7 [at_hi]))"
    by (simp add: at_hi_def particle_at_def box_7_def)
  have t7: "fmul (fsub 1 0) (fdiv 1 (9586981 / 67108864)) = 14680063 / 2097152"
    by (simp add: fsub_def fdiv_def fmul_def rnd_inv_w7 rnd_s7)
  note c7 = C4_box_hi_is_binned_in_range [OF grid_ok_7, of at_hi, THEN conjunct1, rule_format, OF h7]
  have "fst (bin_coords (sys_of box_7 [at_hi]) ?s at_hi) =
          (if real 7 \<le> fmul (fsub (xhi box_7) (xlo box_7)) (fdiv 1 (9586981 / 67108864))
           then 0 else 7 - 1)"
    using c7 [THEN conjunct2] unfolding s7_fields sys_of_fields by simp
  then have b: "fst (bin_coords (sys_of box_7 [at_hi]) ?s at_hi) = 6"
    by (simp add: box_7_def t7)
  show ?thesis using a b by simp
qed



lemma in_box_below_hi [simp]: "in_box box_25 below_hi"
  by (simp add: in_box_def has_nan_def below_hi_def particle_at_def box_25_def)




lemma in_box_examples [simp]: "in_box box_1 origin" "in_box box_1 corner"
  by (simp_all add: in_box_def has_nan_def origin_def corner_def particle_at_def box_1_def)


subsection \<open>Box changes\<close>

lemma same_allocation_refl [simp]: "same_allocation s s"
  by (simp add: same_allocation_def)

lemma same_allocation_trans:
  assumes "same_allocation s s'" "same_allocation s' s''"
  shows "same_allocation s s''"
proof -
  have 1: "s' = s\<lparr> m_cell_size := m_cell_size s', m_xyzf := m_xyzf s', m_tdb := m_tdb s',
             m_overflowed := m_overflowed s' \<rparr>"
    using assms(1) by (simp add: same_allocation_def)
  have 2: "s'' = s'\<lparr> m_cell_size := m_cell_size s'', m_xyzf := m_xyzf s'', m_tdb := m_tdb s'',
             m_overflowed := m_overflowed s'' \<rparr>"
    using assms(2) by (simp add: same_allocation_def)
  have "s'' = s\<lparr> m_cell_size := m_cell_size s'', m_xyzf := m_xyzf s'', m_tdb := m_tdb s'',
             m_overflowed := m_overflowed s'' \<rparr>"
    by (subst 2, subst 1) simp
  then show ?thesis using assms by (simp add: same_allocation_def)
qed

lemma same_allocation_fields:
  assumes "same_allocation s s'"
  shows "m_nominal_width s' = m_nominal_width s" "m_radius s' = m_radius s"
    "m_max_cells s' = m_max_cells s" "m_compute_tdb s' = m_compute_tdb s"
    "m_flag_charge s' = m_flag_charge s" "m_width s' = m_width s" "m_dim s' = m_dim s"
    "m_Nmax s' = m_Nmax s" "m_params_changed s' = m_params_changed s"
    "m_particles_sorted s' = m_particles_sorted s" "m_box_changed s' = m_box_changed s"
    "m_cell_indexer s' = m_cell_indexer s" "m_cell_list_indexer s' = m_cell_list_indexer s"
    "m_cell_adj_indexer s' = m_cell_adj_indexer s" "m_cell_adj s' = m_cell_adj s"
    "length (m_cell_size s') = length (m_cell_size s)" "length (m_xyzf s') = length (m_xyzf s)"
    "length (m_tdb s') = length (m_tdb s)"
proof -
  have e: "s' = s\<lparr> m_cell_size := m_cell_size s', m_xyzf := m_xyzf s', m_tdb := m_tdb s',
             m_overflowed := m_overflowed s' \<rparr>"
    using assms by (simp add: same_allocation_def)
  show "m_nominal_width s' = m_nominal_width s" by (subst e) simp
  show "m_radius s' = m_radius s" by (subst e) simp
  show "m_max_cells s' = m_max_cells s" by (subst e) simp
  show "m_compute_tdb s' = m_compute_tdb s" by (subst e) simp
  show "m_flag_charge s' = m_flag_charge s" by (subst e) simp
  show "m_width s' = m_width s" by (subst e) simp
  show "m_dim s' = m_dim s" by (subst e) simp
  show "m_Nmax s' = m_Nmax s" by (subst e) simp
  show "m_params_changed s' = m_params_changed s" by (subst e) simp
  show "m_particles_sorted s' = m_particles_sorted s" by (subst e) simp
  show "m_box_changed s' = m_box_changed s" by (subst e) simp
  show "m_cell_indexer s' = m_cell_indexer s" by (subst e) simp
  show "m_cell_list_indexer s' = m_cell_list_indexer s" by (subst e) simp
  show "m_cell_adj_indexer s' = m_cell_adj_indexer s" by (subst e) simp
  show "m_cell_adj s' = m_cell_adj s" by (subst e) simp
  show "length (m_cell_size s') = length (m_cell_size s)" "length (m_xyzf s') = length (m_xyzf s)"
    "length (m_tdb s') = length (m_tdb s)"
    using assms by (simp_all add: same_allocation_def)
qed

lemma body_same_allocation:
  "same_allocation s (snd (computeCellList_body box scale ci cli n p s))"
  by (simp add: computeCellList_body_def same_allocation_def store_def Let_def
      split: prod.split option.split)

lemma loop_same_allocation:
  "same_allocation s (snd (computeCellList_loop box scale ci cli n ps s))"
proof (induction ps arbitrary: n s)
  case Nil
  show ?case by simp
next
  case (Cons p ps)
  obtain e s1 where b: "computeCellList_body box scale ci cli n p s = (e, s1)"
    by (cases "computeCellList_body box scale ci cli n p s") auto
  have 1: "same_allocation s s1" using body_same_allocation [of s box scale ci cli n p] b by simp
  show ?case
  proof (cases e)
    case None
    have "same_allocation s1 (snd (computeCellList_loop box scale ci cli (n + 1) ps s1))"
      by (rule Cons.IH)
    with 1 show ?thesis using b None by (auto intro: same_allocation_trans)
  next
    case (Some err)
    with 1 b show ?thesis by simp
  qed
qed

lemma computeCellList_same_allocation:
  "same_allocation s (snd (computeCellList sys s))"
proof (cases "Index3D_getNumElements (m_cell_indexer s) > length (m_cell_size s)")
  case True
  then show ?thesis by (simp add: computeCellList_def Let_def split: prod.split)
next
  case False
  obtain wx wy wz where w: "m_width s = (wx, wy, wz)" by (cases "m_width s") auto
  let ?s0 = "s\<lparr> m_cell_size := replicate (Index3D_getNumElements (m_cell_indexer s)) 0 @
                      drop (Index3D_getNumElements (m_cell_indexer s)) (m_cell_size s) \<rparr>"
  have 0: "same_allocation s ?s0" using False by (simp add: same_allocation_def)
  have "same_allocation ?s0 (snd (computeCellList_loop (getBox sys) (fdiv 1 wx, fdiv 1 wy, fdiv 1 wz)
          (m_cell_indexer s) (m_cell_list_indexer s) 0 (arrays sys) ?s0))"
    by (rule loop_same_allocation)
  with 0 have "same_allocation s (snd (computeCellList_loop (getBox sys) (fdiv 1 wx, fdiv 1 wy, fdiv 1 wz)
          (m_cell_indexer s) (m_cell_list_indexer s) 0 (arrays sys) ?s0))"
    by (rule same_allocation_trans)
  then show ?thesis using False by (simp add: computeCellList_def Let_def w)
qed

lemma snd_compute_rebuild:
  assumes "compute_flags sys s = (s3, force)" "shouldCompute sys t \<or> force"
  shows "snd (compute sys t s) = snd (computeCellList sys (s3\<lparr> m_overflowed := False \<rparr>))"
  using assms by (simp add: compute_rebuild split: prod.split option.split)


lemma unset_sorted:
  "(if m_particles_sorted s then (s\<lparr> m_particles_sorted := False \<rparr>, True) else (s, f)) =
   (s\<lparr> m_particles_sorted := False \<rparr>, m_particles_sorted s \<or> f)"
proof (cases "m_particles_sorted s")
  case True
  then show ?thesis by simp
next
  case False
  then have "s\<lparr> m_particles_sorted := False \<rparr> = s\<lparr> m_particles_sorted := m_particles_sorted s \<rparr>"
    by simp
  then show ?thesis using False by simp
qed

lemma compute_flags_box_changed:
  assumes "\<not> m_params_changed s" "m_box_changed s"
  shows "compute_flags sys s =
           ((if computeDimensions sys s = m_dim s then initializeWidth sys s else initializeAll sys s)
              \<lparr> m_box_changed := False, m_particles_sorted := False \<rparr>, True)"
proof -
  have iw: "m_particles_sorted (initializeWidth sys s) = m_particles_sorted s"
    by (subst initializeWidth_frame) simp
  show ?thesis
    using assms by (simp add: compute_flags_def Let_def unset_sorted)
qed

lemma computeDimensions_box_1: "computeDimensions (sys_of box_1 ps) cl_1 = (1, 1, 1)"
  by (rule computeDimensions_3d_unscaled)
     (simp_all add: box_1_def cl_1_def uint_def UINT_MAX_def fsub_def fdiv_def)

lemma computeDimensions_box_half: "computeDimensions (sys_of box_half ps) cl_1 = (0, 0, 0)"
  by (rule computeDimensions_3d_unscaled)
     (simp_all add: box_half_def cl_1_def uint_def UINT_MAX_def fsub_def fdiv_def)

text \<open>
  C8. In a state with a pending box change and no pending parameter change: when the
  recomputed \<open>dim\<close> equals the current one, \<^verbatim>\<open>compute\<close> runs \<^verbatim>\<open>initializeWidth\<close> only and then
  rebuilds, whatever the periodicity policy says; \<open>dim\<close>, the adjacency table, \<open>Nmax\<close>, the
  indexers and the sizes of all arrays are as before, and \<open>width\<close> is the quotient
  \<open>extent / dim\<close> as computed. When the recomputed \<open>dim\<close> differs, \<^verbatim>\<open>compute\<close> runs \<^verbatim>\<open>initializeAll\<close> (width, memory and
  adjacency table) before the rebuild.
\<close>

theorem C8_box_change_same_dim_keeps_allocation:
  assumes np: "\<not> m_params_changed s" and bc: "m_box_changed s"
  shows "(computeDimensions sys s = m_dim s \<longrightarrow>
            snd (compute sys t s) =
              snd (computeCellList sys
                     ((initializeWidth sys s)
                        \<lparr> m_box_changed := False, m_particles_sorted := False, m_overflowed := False \<rparr>)) \<and>
            m_dim (snd (compute sys t s)) = m_dim s \<and>
            m_width (snd (compute sys t s)) =
              (case m_dim s of (dx, dy, dz) \<Rightarrow>
                 (fdiv (fsub (xhi (getBox sys)) (xlo (getBox sys))) (uint_to_float dx),
                  fdiv (fsub (yhi (getBox sys)) (ylo (getBox sys))) (uint_to_float dy),
                  fdiv (fsub (zhi (getBox sys)) (zlo (getBox sys))) (uint_to_float dz))) \<and>
            m_cell_adj (snd (compute sys t s)) = m_cell_adj s \<and>
            m_Nmax (snd (compute sys t s)) = m_Nmax s \<and>
            m_cell_indexer (snd (compute sys t s)) = m_cell_indexer s \<and>
            m_cell_list_indexer (snd (compute sys t s)) = m_cell_list_indexer s \<and>
            m_cell_adj_indexer (snd (compute sys t s)) = m_cell_adj_indexer s \<and>
            length (m_cell_size (snd (compute sys t s))) = length (m_cell_size s) \<and>
            length (m_xyzf (snd (compute sys t s))) = length (m_xyzf s) \<and>
            length (m_tdb (snd (compute sys t s))) = length (m_tdb s)) \<and>
         (computeDimensions sys s \<noteq> m_dim s \<longrightarrow>
            snd (compute sys t s) =
              snd (computeCellList sys
                     ((initializeAll sys s)
                        \<lparr> m_box_changed := False, m_particles_sorted := False, m_overflowed := False \<rparr>)) \<and>
            m_cell_adj (snd (compute sys t s)) = m_cell_adj (initializeAll sys s) \<and>
            m_Nmax (snd (compute sys t s)) =
              round_Nmax (estimate_Nmax (getN sys) (computeDimensions sys s)))"
proof (intro conjI impI)
  assume same: "computeDimensions sys s = m_dim s"
  let ?s3 = "(initializeWidth sys s)
               \<lparr> m_box_changed := False, m_particles_sorted := False, m_overflowed := False \<rparr>"
  have fl: "compute_flags sys s =
              ((initializeWidth sys s)\<lparr> m_box_changed := False, m_particles_sorted := False \<rparr>, True)"
    using compute_flags_box_changed [OF np bc, of sys] same by simp
  show e: "snd (compute sys t s) = snd (computeCellList sys ?s3)"
    using snd_compute_rebuild [OF fl, of t] by simp
  have sa: "same_allocation ?s3 (snd (compute sys t s))"
    unfolding e by (rule computeCellList_same_allocation)
  note f = same_allocation_fields [OF sa]
  have s3: "?s3 = s\<lparr> m_dim := computeDimensions sys s,
        m_width := (case computeDimensions sys s of (dx, dy, dz) \<Rightarrow>
                      (fdiv (fsub (xhi (getBox sys)) (xlo (getBox sys))) (uint_to_float dx),
                       fdiv (fsub (yhi (getBox sys)) (ylo (getBox sys))) (uint_to_float dy),
                       fdiv (fsub (zhi (getBox sys)) (zlo (getBox sys))) (uint_to_float dz))),
        m_box_changed := False, m_particles_sorted := False, m_overflowed := False \<rparr>"
    by (subst initializeWidth_frame) simp
  show "m_dim (snd (compute sys t s)) = m_dim s" unfolding f by (subst s3) (simp add: same)
  show "m_width (snd (compute sys t s)) =
              (case m_dim s of (dx, dy, dz) \<Rightarrow>
                 (fdiv (fsub (xhi (getBox sys)) (xlo (getBox sys))) (uint_to_float dx),
                  fdiv (fsub (yhi (getBox sys)) (ylo (getBox sys))) (uint_to_float dy),
                  fdiv (fsub (zhi (getBox sys)) (zlo (getBox sys))) (uint_to_float dz)))"
    unfolding f by (subst s3) (simp add: same)
  show "m_cell_adj (snd (compute sys t s)) = m_cell_adj s" unfolding f by (subst s3) simp
  show "m_Nmax (snd (compute sys t s)) = m_Nmax s" unfolding f by (subst s3) simp
  show "m_cell_indexer (snd (compute sys t s)) = m_cell_indexer s" unfolding f by (subst s3) simp
  show "m_cell_list_indexer (snd (compute sys t s)) = m_cell_list_indexer s"
    unfolding f by (subst s3) simp
  show "m_cell_adj_indexer (snd (compute sys t s)) = m_cell_adj_indexer s"
    unfolding f by (subst s3) simp
  show "length (m_cell_size (snd (compute sys t s))) = length (m_cell_size s)"
    unfolding f by (subst s3) simp
  show "length (m_xyzf (snd (compute sys t s))) = length (m_xyzf s)" unfolding f by (subst s3) simp
  show "length (m_tdb (snd (compute sys t s))) = length (m_tdb s)" unfolding f by (subst s3) simp
next
  assume diff: "computeDimensions sys s \<noteq> m_dim s"
  let ?s3 = "(initializeAll sys s)
               \<lparr> m_box_changed := False, m_particles_sorted := False, m_overflowed := False \<rparr>"
  have fl: "compute_flags sys s =
              ((initializeAll sys s)\<lparr> m_box_changed := False, m_particles_sorted := False \<rparr>, True)"
    using compute_flags_box_changed [OF np bc, of sys] diff by simp
  show e: "snd (compute sys t s) = snd (computeCellList sys ?s3)"
    using snd_compute_rebuild [OF fl, of t] by simp
  have sa: "same_allocation ?s3 (snd (compute sys t s))"
    unfolding e by (rule computeCellList_same_allocation)
  note f = same_allocation_fields [OF sa]
  show "m_cell_adj (snd (compute sys t s)) = m_cell_adj (initializeAll sys s)"
    unfolding f by simp
  have "m_dim (initializeWidth sys s) = computeDimensions sys s"
    by (subst initializeWidth_frame) simp
  then show "m_Nmax (snd (compute sys t s)) =
          round_Nmax (estimate_Nmax (getN sys) (computeDimensions sys s))"
    unfolding f by (simp add: initializeAll_def initializeMemory_Nmax)
qed

text \<open>The box keeps its single cell in the first instance and shrinks below the nominal
  width in the second.\<close>

theorem C8_box_change_same_dim_keeps_allocation_witness:
  "m_cell_adj (snd (compute (sys_of box_1 [origin]) 0 (cl_1\<lparr> m_box_changed := True \<rparr>))) =
     m_cell_adj (cl_1\<lparr> m_box_changed := True \<rparr>) \<and>
   m_Nmax (snd (compute (sys_of box_1 [origin]) 0 (cl_1\<lparr> m_box_changed := True \<rparr>))) = 32 \<and>
   m_cell_adj (snd (compute (sys_of box_half [origin]) 0 (cl_1\<lparr> m_box_changed := True \<rparr>))) =
     m_cell_adj (initializeAll (sys_of box_half [origin]) (cl_1\<lparr> m_box_changed := True \<rparr>))"
proof -
  let ?s = "cl_1\<lparr> m_box_changed := True \<rparr>"
  have f: "\<not> m_params_changed ?s" "m_box_changed ?s" "m_dim ?s = (1, 1, 1)" "m_Nmax ?s = 32"
    by (simp_all add: cl_1_def)
  have d1: "computeDimensions (sys_of box_1 [origin]) ?s = m_dim ?s"
    using computeDimensions_box_1 [of "[origin]"]
    by (simp add: f computeDimensions_cong [of ?s cl_1])
  have d2: "computeDimensions (sys_of box_half [origin]) ?s \<noteq> m_dim ?s"
    using computeDimensions_box_half [of "[origin]"]
    by (simp add: f computeDimensions_cong [of ?s cl_1])
  note t1 = C8_box_change_same_dim_keeps_allocation
              [OF f(1,2), of "sys_of box_1 [origin]" 0, THEN conjunct1, rule_format, OF d1]
  note t2 = C8_box_change_same_dim_keeps_allocation
              [OF f(1,2), of "sys_of box_half [origin]" 0, THEN conjunct2, rule_format, OF d2]
  have a: "m_cell_adj (snd (compute (sys_of box_1 [origin]) 0 ?s)) = m_cell_adj ?s"
    and b: "m_Nmax (snd (compute (sys_of box_1 [origin]) 0 ?s)) = m_Nmax ?s"
    using t1 by blast+
  have c: "m_cell_adj (snd (compute (sys_of box_half [origin]) 0 ?s)) =
           m_cell_adj (initializeAll (sys_of box_half [origin]) ?s)"
    using t2 by blast
  show ?thesis by (simp only: a b c f(4))
qed

subsection \<open>Repeated calls\<close>

lemma bin_step_tdb:
  "m_tdb (bin_step n bin p s) =
     (if m_cell_size s ! bin < m_Nmax s \<and> m_compute_tdb s
      then (m_tdb s)[bin * m_Nmax s + m_cell_size s ! bin :=
              make_scalar4 (int_as_scalar (p_type p)) (p_diameter p) (int_as_scalar (p_body p)) Scalar_0]
      else m_tdb s)"
  by (simp add: bin_step_def Let_def)

lemma fill_tdb_keeps:
  assumes "c < length (m_cell_size s)" "slot < m_cell_size s ! c" "slot < m_Nmax s"
    and "m_cell_size s ! c + length ps < 2 ^ 32"
  shows "m_tdb (fill b n ps s) ! (c * m_Nmax s + slot) = m_tdb s ! (c * m_Nmax s + slot)"
  using assms
proof (induction ps arbitrary: n s)
  case Nil
  show ?case by simp
next
  case (Cons p ps)
  let ?s1 = "bin_step n (b p) p s"
  let ?cs = "m_cell_size s"
  have nowrap: "?cs ! c + 1 < 2 ^ 32" using Cons.prems(4) by simp
  have c1: "m_cell_size ?s1 ! c = ?cs ! c + (if b p = c then 1 else 0)"
    using Cons.prems(1) nowrap by (simp add: bin_step_cell_size nth_list_update uint_id)
  have keep1: "m_tdb ?s1 ! (c * m_Nmax s + slot) = m_tdb s ! (c * m_Nmax s + slot)"
  proof (cases "?cs ! b p < m_Nmax s")
    case True
    have "b p \<noteq> c \<or> ?cs ! b p \<noteq> slot" using Cons.prems(2) by auto
    then have "b p * m_Nmax s + ?cs ! b p \<noteq> c * m_Nmax s + slot"
      using True Cons.prems(3) by (intro slot_index_neq) simp_all
    then show ?thesis using True by (simp add: bin_step_tdb)
  next
    case False
    then show ?thesis by (simp add: bin_step_tdb)
  qed
  have "m_tdb (fill b (n + 1) ps ?s1) ! (c * m_Nmax ?s1 + slot) =
        m_tdb ?s1 ! (c * m_Nmax ?s1 + slot)"
    by (rule Cons.IH) (use Cons.prems c1 in simp_all)
  then show ?case using keep1 by simp
qed

lemma bin_step_arrays_upd:
  assumes "m_cell_size s ! bin < m_Nmax s \<longrightarrow>
             F[bin * m_Nmax s + m_cell_size s ! bin := record_of s n p] = F \<and>
             (m_compute_tdb s \<longrightarrow>
                T[bin * m_Nmax s + m_cell_size s ! bin :=
                    make_scalar4 (int_as_scalar (p_type p)) (p_diameter p) (int_as_scalar (p_body p)) Scalar_0] = T)"
  shows "bin_step n bin p (s\<lparr> m_xyzf := F, m_tdb := T \<rparr>) =
         (bin_step n bin p s)\<lparr> m_xyzf := F, m_tdb := T \<rparr>"
proof (cases "m_cell_size s ! bin < m_Nmax s")
  case True
  have r: "record_of (s\<lparr> m_xyzf := F, m_tdb := T \<rparr>) n p = record_of s n p"
    by (simp add: record_of_def)
  show ?thesis using True assms by (simp add: bin_step_def Let_def r)
next
  case False
  then show ?thesis by (simp add: bin_step_def Let_def)
qed

lemma list_update_same:
  assumes "i < length xs \<Longrightarrow> xs ! i = v"
  shows "xs[i := v] = xs"
proof (cases "i < length xs")
  case True
  then show ?thesis using assms by (metis list_update_id)
next
  case False
  then have "length xs \<le> i" by simp
  then show ?thesis by (rule list_update_beyond)
qed

lemma fill_again:
  assumes "\<forall>p \<in> set ps. b p < length (m_cell_size s)"
    and "\<forall>c < length (m_cell_size s). m_cell_size s ! c + length ps < 2 ^ 32"
  shows "fill b n ps (s\<lparr> m_xyzf := m_xyzf (fill b n ps s), m_tdb := m_tdb (fill b n ps s) \<rparr>) =
         fill b n ps s"
  using assms
proof (induction ps arbitrary: n s)
  case Nil
  show ?case by simp
next
  case (Cons p ps)
  let ?s1 = "bin_step n (b p) p s"
  let ?cs = "m_cell_size s"
  let ?F = "m_xyzf (fill b (n + 1) ps ?s1)"
  let ?T = "m_tdb (fill b (n + 1) ps ?s1)"
  let ?i = "b p * m_Nmax s + ?cs ! b p"
  have bp: "b p < length ?cs" using Cons.prems by simp
  have bnd: "?cs ! c + length (p # ps) < 2 ^ 32" if "c < length ?cs" for c
    using Cons.prems(2) that by blast
  have c1: "m_cell_size ?s1 ! c = ?cs ! c + (if b p = c then 1 else 0)" if "c < length ?cs" for c
  proof -
    have "uint (?cs ! c + 1) = ?cs ! c + 1" using bnd [OF that] by (intro uint_id) simp
    then show ?thesis using that by (simp add: bin_step_cell_size nth_list_update)
  qed
  have kept: "?F[?i := record_of s n p] = ?F \<and>
              (m_compute_tdb s \<longrightarrow> ?T[?i :=
                 make_scalar4 (int_as_scalar (p_type p)) (p_diameter p) (int_as_scalar (p_body p)) Scalar_0] = ?T)"
    if lt: "?cs ! b p < m_Nmax s"
  proof (intro conjI impI)
    have k1: "?F ! (b p * m_Nmax ?s1 + ?cs ! b p) = m_xyzf ?s1 ! (b p * m_Nmax ?s1 + ?cs ! b p)"
      by (rule fill_xyzf_keeps) (use bp lt c1 [OF bp] bnd [OF bp] in simp_all)
    show "?F[?i := record_of s n p] = ?F"
    proof (rule list_update_same)
      assume "?i < length ?F"
      then show "?F ! ?i = record_of s n p" using k1 lt by (simp add: bin_step_xyzf)
    qed
    assume tdb: "m_compute_tdb s"
    have k2: "?T ! (b p * m_Nmax ?s1 + ?cs ! b p) = m_tdb ?s1 ! (b p * m_Nmax ?s1 + ?cs ! b p)"
      by (rule fill_tdb_keeps) (use bp lt c1 [OF bp] bnd [OF bp] in simp_all)
    show "?T[?i := make_scalar4 (int_as_scalar (p_type p)) (p_diameter p) (int_as_scalar (p_body p)) Scalar_0] = ?T"
    proof (rule list_update_same)
      assume "?i < length ?T"
      then show "?T ! ?i = make_scalar4 (int_as_scalar (p_type p)) (p_diameter p) (int_as_scalar (p_body p)) Scalar_0"
        using k2 lt tdb by (simp add: bin_step_tdb)
    qed
  qed
  have step: "bin_step n (b p) p (s\<lparr> m_xyzf := ?F, m_tdb := ?T \<rparr>) = ?s1\<lparr> m_xyzf := ?F, m_tdb := ?T \<rparr>"
    by (rule bin_step_arrays_upd) (use kept in blast)
  have ih: "fill b (n + 1) ps (?s1\<lparr> m_xyzf := ?F, m_tdb := ?T \<rparr>) = fill b (n + 1) ps ?s1"
  proof (rule Cons.IH)
    show "\<forall>p \<in> set ps. b p < length (m_cell_size ?s1)" using Cons.prems(1) by simp
    show "\<forall>c < length (m_cell_size ?s1). m_cell_size ?s1 ! c + length ps < 2 ^ 32"
    proof (intro allI impI)
      fix c assume "c < length (m_cell_size ?s1)"
      then have c: "c < length ?cs" by simp
      show "m_cell_size ?s1 ! c + length ps < 2 ^ 32" using c1 [OF c] bnd [OF c] by simp
    qed
  qed
  show ?case using step ih by simp
qed


lemma computeCellList_snd:
  assumes ok: "storage_ok s"
  shows "snd (computeCellList sys s) =
           fill (cell_of sys s) 0
             (takeWhile (\<lambda>p. \<not> has_nan p \<and>
                             cell_of sys s p < Index3D_getNumElements (m_cell_indexer s))
                (arrays sys))
             (s\<lparr> m_cell_size := replicate (Index3D_getNumElements (m_cell_indexer s)) 0 \<rparr>)"
proof -
  define valid where
    "valid = (\<lambda>p. \<not> has_nan p \<and> cell_of sys s p < Index3D_getNumElements (m_cell_indexer s))"
  define good where "good = takeWhile valid (arrays sys)"
  have "\<forall>p \<in> set good. valid p" by (auto simp add: good_def dest: set_takeWhileD)
  then have g: "\<forall>p \<in> set good. \<not> has_nan p \<and>
             cell_of sys s p < Index3D_getNumElements (m_cell_indexer s)"
    by (simp add: valid_def)
  have split: "arrays sys = good @ dropWhile valid (arrays sys)" by (simp add: good_def)
  have "snd (computeCellList sys s) =
          fill (cell_of sys s) 0 good
            (s\<lparr> m_cell_size := replicate (Index3D_getNumElements (m_cell_indexer s)) 0 \<rparr>)"
  proof (cases "dropWhile valid (arrays sys)")
    case Nil
    then have "arrays sys = good" using split by (metis append_Nil2)
    then show ?thesis using computeCellList_valid [OF ok, of sys] g by simp
  next
    case (Cons p rest)
    then have ps: "arrays sys = good @ p # rest" using split by simp
    have "\<not> valid p" using Cons hd_dropWhile [of valid "arrays sys"] by auto
    then have bad: "has_nan p \<or> Index3D_getNumElements (m_cell_indexer s) \<le> cell_of sys s p"
      by (auto simp add: valid_def)
    show ?thesis
    proof (cases "has_nan p")
      case True
      then show ?thesis using computeCellList_nan [OF ok ps g] by simp
    next
      case False
      then show ?thesis using computeCellList_out_of_bounds [OF ok ps g] bad by simp
    qed
  qed
  then show ?thesis by (simp add: good_def valid_def)
qed

lemma rebuild_twice:
  assumes ok: "storage_ok s" and N: "length (arrays sys) < 2 ^ 32"
  shows "snd (computeCellList sys ((snd (computeCellList sys (s\<lparr> m_overflowed := False \<rparr>)))
                                     \<lparr> m_overflowed := False \<rparr>)) =
         snd (computeCellList sys (s\<lparr> m_overflowed := False \<rparr>))"
proof -
  let ?nc = "Index3D_getNumElements (m_cell_indexer s)"
  define good where "good = takeWhile (\<lambda>p. \<not> has_nan p \<and> cell_of sys s p < ?nc) (arrays sys)"
  define s0 where "s0 = s\<lparr> m_overflowed := False, m_cell_size := replicate ?nc 0 \<rparr>"
  define s' where "s' = fill (cell_of sys s) 0 good s0"
  have first: "snd (computeCellList sys (s\<lparr> m_overflowed := False \<rparr>)) = s'"
    using computeCellList_snd [of "s\<lparr> m_overflowed := False \<rparr>" sys] ok
    by (simp add: s'_def s0_def good_def)
  have ok': "storage_ok (s'\<lparr> m_overflowed := False \<rparr>)"
    using ok by (simp add: s'_def s0_def storage_ok_def)
  have ci: "m_cell_indexer s' = m_cell_indexer s" by (simp add: s'_def s0_def)
  have co: "cell_of sys s' = cell_of sys s"
    by (simp add: s'_def s0_def)
  have fr: "s' = s0\<lparr> m_cell_size := m_cell_size s', m_xyzf := m_xyzf s', m_tdb := m_tdb s',
                     m_overflowed := m_overflowed s' \<rparr>"
    unfolding s'_def by (rule fill_frame)
  have reset: "s'\<lparr> m_overflowed := False, m_cell_size := replicate ?nc 0 \<rparr> =
               s0\<lparr> m_xyzf := m_xyzf s', m_tdb := m_tdb s' \<rparr>"
    by (subst fr) (simp add: s0_def)
  have second: "snd (computeCellList sys (s'\<lparr> m_overflowed := False \<rparr>)) =
                fill (cell_of sys s) 0 good (s0\<lparr> m_xyzf := m_xyzf s', m_tdb := m_tdb s' \<rparr>)"
    using computeCellList_snd [OF ok', of sys] by (simp add: ci co good_def reset)
  have len: "length good \<le> length (arrays sys)" by (simp add: good_def length_takeWhile_le)
  have "fill (cell_of sys s) 0 good
          (s0\<lparr> m_xyzf := m_xyzf (fill (cell_of sys s) 0 good s0),
               m_tdb := m_tdb (fill (cell_of sys s) 0 good s0) \<rparr>) =
        fill (cell_of sys s) 0 good s0"
  proof (rule fill_again)
    show "\<forall>p \<in> set good. cell_of sys s p < length (m_cell_size s0)"
      by (auto simp add: s0_def good_def dest: set_takeWhileD)
    show "\<forall>c < length (m_cell_size s0). m_cell_size s0 ! c + length good < 2 ^ 32"
      using len N by (simp add: s0_def)
  qed
  then have "fill (cell_of sys s) 0 good (s0\<lparr> m_xyzf := m_xyzf s', m_tdb := m_tdb s' \<rparr>) = s'"
    by (simp add: s'_def)
  then show ?thesis by (simp only: first second)
qed

lemma compute_flags_clears:
  assumes "compute_flags sys s = (s3, force)"
  shows "\<not> m_params_changed s3 \<and> \<not> m_box_changed s3 \<and> \<not> m_particles_sorted s3"
  using assms
  by (auto simp add: compute_flags_def Let_def split: if_splits)

lemma compute_flags_fresh:
  assumes "\<not> m_params_changed s" "\<not> m_box_changed s" "\<not> m_particles_sorted s"
  shows "compute_flags sys s = (s, False)"
  using assms by (simp add: compute_flags_def)


text \<open>
  C9. A second \<^verbatim>\<open>compute\<close> on the state the first one left, with the same particle data and
  box and the same answer of the periodicity policy, leaves the whole object as it is:
  bucket contents, occupancy counters, adjacency table and every other member.
\<close>

theorem C9_compute_twice:
  assumes flags: "compute_flags sys s = (s3, force)"
    and ok: "storage_ok s3"
    and N: "length (arrays sys) < 2 ^ 32"
    and policy: "shouldCompute sys t' = shouldCompute sys t"
  shows "snd (compute sys t' (snd (compute sys t s))) = snd (compute sys t s)"
proof -
  have cl: "\<not> m_params_changed s3" "\<not> m_box_changed s3" "\<not> m_particles_sorted s3"
    using compute_flags_clears [OF flags] by simp_all
  show ?thesis
  proof (cases "shouldCompute sys t \<or> force")
    case False
    then have 1: "compute sys t s = (None, s3)" using flags by (simp add: compute_def)
    have "compute_flags sys s3 = (s3, False)" using cl by (rule compute_flags_fresh)
    then have "compute sys t' s3 = (None, s3)" using False policy by (simp add: compute_def)
    then show ?thesis by (simp add: 1)
  next
    case True
    define s' where "s' = snd (computeCellList sys (s3\<lparr> m_overflowed := False \<rparr>))"
    have 1: "snd (compute sys t s) = s'"
      unfolding s'_def using flags True by (rule snd_compute_rebuild)
    have sa: "same_allocation (s3\<lparr> m_overflowed := False \<rparr>) s'"
      unfolding s'_def by (rule computeCellList_same_allocation)
    have "\<not> m_params_changed s'" "\<not> m_box_changed s'" "\<not> m_particles_sorted s'"
      using same_allocation_fields(9-11) [OF sa] cl by simp_all
    then have fl': "compute_flags sys s' = (s', False)" by (rule compute_flags_fresh)
    show ?thesis
    proof (cases "shouldCompute sys t'")
      case False
      then have "compute sys t' s' = (None, s')" using fl' by (simp add: compute_def)
      then show ?thesis by (simp add: 1)
    next
      case sc: True
      have "snd (compute sys t' s') = snd (computeCellList sys (s'\<lparr> m_overflowed := False \<rparr>))"
        by (rule snd_compute_rebuild [OF fl']) (simp add: sc)
      also have "\<dots> = s'" unfolding s'_def using ok N by (rule rebuild_twice)
      finally show ?thesis by (simp add: 1)
    qed
  qed
qed

theorem C9_compute_twice_witness:
  "snd (compute (sys_of box_1 [origin, corner]) 1
          (snd (compute (sys_of box_1 [origin, corner]) 0 cl_1))) =
   snd (compute (sys_of box_1 [origin, corner]) 0 cl_1)"
  by (rule C9_compute_twice [where ?s3.0 = cl_1 and force = False]) simp_all

subsection \<open>The adjacency table\<close>

lemma wrap_coord_mod:
  assumes "0 < m"
  shows "wrap_coord n m = n mod m"
proof -
  have r: "0 \<le> n mod m" "n mod m < m" using assms by simp_all
  show ?thesis
  proof (cases "sgn n \<noteq> sgn m \<and> \<not> m dvd n")
    case True
    then have "n smod m = n mod m - m" by (simp add: signed_modulo_int_eq_modulo_int)
    then show ?thesis using r by (simp add: wrap_coord_def Let_def)
  next
    case False
    then have "n smod m = n mod m" by (simp add: signed_modulo_int_eq_modulo_int)
    then show ?thesis using r by (simp add: wrap_coord_def Let_def)
  qed
qed

lemma fold_product:
  "fold (\<lambda>x. fold (f x) ys) xs = fold (\<lambda>(x, y). f x y) (List.product xs ys)"
proof (induction xs)
  case Nil
  show ?case by simp
next
  case (Cons x xs)
  have "fold (\<lambda>(x, y). f x y) (map (Pair x) ys) = fold (f x) ys"
    by (simp add: fold_map comp_def)
  then show ?case using Cons by simp
qed

lemma fold_product3:
  "fold (\<lambda>x. fold (\<lambda>y. fold (f x y) zs) ys) xs =
   fold (\<lambda>(x, y, z). f x y z) (List.product xs (List.product ys zs))"
proof -
  have "(\<lambda>x. fold (\<lambda>y. fold (f x y) zs) ys) =
        (\<lambda>x. fold (\<lambda>(y, z). f x y z) (List.product ys zs))"
    by (rule ext) (rule fold_product)
  then show ?thesis by (simp only:) (rule fold_product)
qed

lemma write_seq:
  assumes "B + k0 + length ts \<le> length a" "length a < 2 ^ 32"
  shows "fold (\<lambda>t (a, off). (a[uint (B + off) := g t], uint (off + 1))) ts (a, k0) =
           (take (B + k0) a @ map g ts @ drop (B + k0 + length ts) a, k0 + length ts)"
  using assms
proof (induction ts arbitrary: a k0)
  case Nil
  show ?case by simp
next
  case (Cons t ts)
  let ?a1 = "a[B + k0 := g t]"
  have lt: "B + k0 < length a" using Cons.prems(1) by simp
  have u1: "uint (B + k0) = B + k0" using lt Cons.prems(2) by (intro uint_id) simp
  have u2: "uint (k0 + 1) = k0 + 1" using lt Cons.prems(2) by (intro uint_id) simp
  have ih: "fold (\<lambda>t (a, off). (a[uint (B + off) := g t], uint (off + 1))) ts (?a1, k0 + 1) =
           (take (B + (k0 + 1)) ?a1 @ map g ts @ drop (B + (k0 + 1) + length ts) ?a1, k0 + 1 + length ts)"
    by (rule Cons.IH) (use Cons.prems in simp_all)
  have t: "take (B + (k0 + 1)) ?a1 = take (B + k0) a @ [g t]"
    using lt by (simp add: take_Suc_conv_app_nth take_update_cancel)
  have d: "drop (B + (k0 + 1) + length ts) ?a1 = drop (B + k0 + length (t # ts)) a"
    by (simp add: drop_update_cancel)
  show ?case using u1 u2 ih t d by simp
qed

lemma put_seg_length:
  assumes "c * w + w \<le> length a" "length xs = w"
  shows "length (put_seg w c xs a) = length a"
  using assms by (simp add: put_seg_def)

lemma seg_put_seg_same:
  assumes "c * w + w \<le> length a" "length xs = w"
  shows "seg w c (put_seg w c xs a) = xs"
  using assms by (simp add: put_seg_def seg_def)

lemma seg_put_seg_other:
  assumes "c * w + w \<le> length a" "length xs = w" "c' \<noteq> c"
  shows "seg w c' (put_seg w c xs a) = seg w c' a"
proof (cases "c' < c")
  case True
  then have "c' + 1 \<le> c" by simp
  then have "(c' + 1) * w \<le> c * w" by (rule mult_le_mono1)
  then have le: "c' * w + w \<le> c * w" by simp
  have "take w (drop (c' * w) (take (c * w) a @ xs @ drop (c * w + w) a)) =
        take w (drop (c' * w) (take (c * w) a))"
    using le assms(1) by simp
  also have "\<dots> = take w (drop (c' * w) a)"
    using le by (simp add: drop_take min_def)
  finally show ?thesis by (simp add: put_seg_def seg_def)
next
  case False
  then have "c + 1 \<le> c'" using assms(3) by simp
  then have "(c + 1) * w \<le> c' * w" by (rule mult_le_mono1)
  then have le: "c * w + w \<le> c' * w" by simp
  have cc: "c \<le> c'" using \<open>c + 1 \<le> c'\<close> by simp
  have l0: "length (take (c * w) a) = c * w" using assms(1) by simp
  have "drop (c' * w) (take (c * w) a @ xs @ drop (c * w + w) a) =
        drop (c' * w - c * w) (xs @ drop (c * w + w) a)"
    using le by (simp only: drop_append l0) simp
  also have "\<dots> = drop (c' * w - c * w - w) (drop (c * w + w) a)"
    using le assms(2) by (simp only: drop_append) simp
  also have "\<dots> = drop (c' * w) a" using le by simp
  finally have "drop (c' * w) (take (c * w) a @ xs @ drop (c * w + w) a) = drop (c' * w) a" .
  then show ?thesis by (simp add: put_seg_def seg_def)
qed

lemma fold_put_seg:
  assumes f: "\<forall>x \<in> set xs. \<forall>a. length a = L \<longrightarrow> f x a = put_seg w (key x) (val x) a"
    and r: "\<forall>x \<in> set xs. key x * w + w \<le> L \<and> length (val x) = w"
    and d: "distinct (map key xs)"
    and a: "length a = L"
  shows "length (fold f xs a) = L \<and>
         (\<forall>x \<in> set xs. seg w (key x) (fold f xs a) = val x) \<and>
         (\<forall>c. c \<notin> key ` set xs \<longrightarrow> seg w c (fold f xs a) = seg w c a)"
  using assms
proof (induction xs arbitrary: a)
  case Nil
  then show ?case by simp
next
  case (Cons x xs)
  let ?a1 = "put_seg w (key x) (val x) a"
  have fx: "f x a = ?a1" using Cons.prems(1,4) by simp
  have rx: "key x * w + w \<le> length a" "length (val x) = w" using Cons.prems(2,4) by simp_all
  have l1: "length ?a1 = L" using rx Cons.prems(4) by (simp add: put_seg_length)
  have ih: "length (fold f xs ?a1) = L \<and>
         (\<forall>y \<in> set xs. seg w (key y) (fold f xs ?a1) = val y) \<and>
         (\<forall>c. c \<notin> key ` set xs \<longrightarrow> seg w c (fold f xs ?a1) = seg w c ?a1)"
    by (rule Cons.IH) (use Cons.prems l1 in simp_all)
  have nx: "key x \<notin> key ` set xs" using Cons.prems(3) by simp
  have "seg w (key x) (fold f xs ?a1) = val x"
    using ih nx rx by (simp add: seg_put_seg_same)
  moreover have "seg w c (fold f xs ?a1) = seg w c a" if "c \<notin> key ` set (x # xs)" for c
  proof -
    have "c \<noteq> key x" "c \<notin> key ` set xs" using that by auto
    then show ?thesis using ih rx by (simp add: seg_put_seg_other)
  qed
  ultimately show ?case using ih by (simp add: fx)
qed

lemma int_to_uint_nat:
  assumes "0 \<le> i" "i < 2 ^ 32"
  shows "int_to_uint i = nat i"
  using assms by (simp add: int_to_uint_def)

lemma to_int_small: "n < 2 ^ 31 \<Longrightarrow> to_int n = int n"
  by (simp add: to_int_def)

lemma neighbour_id_bound:
  assumes "1 \<le> dx" "1 \<le> dy" "1 \<le> dz"
  shows "neighbour_id (dx, dy, dz) (nk, nj, ni) < dx * dy * dz"
proof -
  have "nat (ni mod int dx) < dx" "nat (nj mod int dy) < dy" "nat (nk mod int dz) < dz"
    using assms by (simp_all add: nat_less_iff)
  then show ?thesis unfolding neighbour_id_def prod.case by (rule index3_bound)
qed

lemma neighbour_id_self:
  assumes "i < dx" "j < dy" "k < dz"
  shows "neighbour_id (dx, dy, dz) (int k, int j, int i) = (k * dy + j) * dx + i"
  using assms by (simp add: neighbour_id_def)

lemma sort_range_segment:
  assumes "length p = B"
  shows "sort_range (p @ vs @ q) B (B + length vs) = p @ sort vs @ q"
  using assms by (simp add: sort_range_def)

lemma factor_less:
  assumes "a * b < (c::nat)"
  shows "1 \<le> b \<Longrightarrow> a < c" "1 \<le> a \<Longrightarrow> b < c"
proof -
  assume "1 \<le> b"
  then have "a \<le> a * b" by (cases b) simp_all
  then show "a < c" using assms by linarith
next
  assume "1 \<le> a"
  then have "b \<le> a * b" by (cases a) simp_all
  then show "b < c" using assms by linarith
qed

lemma radius_small:
  assumes "(2 * r + 1) ^ 3 * n < (2::nat) ^ 32" "1 \<le> n"
  shows "r < 2 ^ 31" "(2 * r + 1) ^ 3 < 2 ^ 32"
proof -
  show w: "(2 * r + 1) ^ 3 < 2 ^ 32" using assms by (rule factor_less(1))
  have "(2 * r + 1) ^ 3 = (2 * r + 1) * ((2 * r + 1) * (2 * r + 1))"
    by (simp only: power3_eq_cube mult.assoc)
  then have "(2 * r + 1) * ((2 * r + 1) * (2 * r + 1)) < 2 ^ 32" using w by (simp only:)
  then have "2 * r + 1 < 2 ^ 32" by (rule factor_less(1)) simp
  then show "r < 2 ^ 31" by simp
qed

lemma int_to_uint_mod:
  assumes "1 \<le> d" "d < 2 ^ 31"
  shows "int_to_uint (n mod int d) = nat (n mod int d)"
proof (rule int_to_uint_nat)
  show "0 \<le> n mod int d" using assms(1) by simp
  have "n mod int d < int d" using assms(1) by simp
  also have "int d < 2 ^ 32" using assms(2) by simp
  finally show "n mod int d < 2 ^ 32" .
qed

lemma adj_cell_eq:
  assumes rdy: "adj_ready s" and d: "m_dim s = (dx, dy, dz)"
    and c: "i < dx" "j < dy" "k < dz"
    and a: "length a = (2 * m_radius s + 1) ^ 3 * (dx * dy * dz)"
  shows "adj_cell s (int i) (int j) (int k) a =
           put_seg ((2 * m_radius s + 1) ^ 3) ((k * dy + j) * dx + i)
             (sort (neighbour_ids (dx, dy, dz) (m_radius s) i j k)) a"
proof -
  define r where "r = m_radius s"
  define W where "W = (2 * r + 1) ^ 3"
  define nc where "nc = dx * dy * dz"
  define cur where "cur = (k * dy + j) * dx + i"
  define ts where "ts = List.product [int k - int r..int k + int r]
          (List.product [int j - int r..int j + int r] [int i - int r..int i + int r])"
  define vs where "vs = map (neighbour_id (dx, dy, dz)) ts"
  have dims: "1 \<le> dx" "1 \<le> dy" "1 \<le> dz" "dx < 2 ^ 31" "dy < 2 ^ 31" "dz < 2 ^ 31"
    using rdy by (simp_all add: adj_ready_def d)
  have ci: "m_cell_indexer s = \<lparr> i3_w = dx, i3_h = dy, i3_d = dz \<rparr>"
    using rdy by (simp add: adj_ready_def d)
  have cai: "m_cell_adj_indexer s = \<lparr> i2_w = W, i2_h = nc \<rparr>"
    using rdy by (simp add: adj_ready_def d W_def nc_def r_def)
  have fits: "W * nc < 2 ^ 32" using rdy by (simp add: adj_ready_def d W_def nc_def r_def)
  have nc1: "1 \<le> nc" using dims by (simp add: nc_def)
  have rs: "r < 2 ^ 31" using radius_small(1) [OF fits [unfolded W_def] nc1] .
  have la: "length a = W * nc" using a by (simp add: W_def nc_def r_def)
  have cur_lt: "cur < nc" unfolding cur_def nc_def using c by (rule index3_bound)
  have "(cur + 1) * W \<le> nc * W" using cur_lt by (intro mult_le_mono1) simp
  then have seg_le: "cur * W + W \<le> length a" by (simp add: la mult.commute)
  have a32: "length a < 2 ^ 32" using la fits by simp
  have nc32: "nc < 2 ^ 32"
    using fits by (rule factor_less(2)) (simp add: W_def)
  have tr: "to_int r = int r" using rs by (simp add: to_int_small)
  have tx: "to_int dx = int dx" "to_int dy = int dy" "to_int dz = int dz"
    using dims by (simp_all add: to_int_small)
  have cc: "Index3D_at (m_cell_indexer s) (int_to_uint (int i)) (int_to_uint (int j))
              (int_to_uint (int k)) = cur"
  proof -
    have "int_to_uint (int i) = i" "int_to_uint (int j) = j" "int_to_uint (int k) = k"
      using c dims by (simp_all add: int_to_uint_nat)
    then show ?thesis using cur_lt nc32 by (simp add: Index3D_at_def ci cur_def uint_id)
  qed
  have store: "adj_store (m_cell_indexer s) (m_cell_adj_indexer s) (int dx) (int dy) (int dz) cur nk nj ni
          = (\<lambda>(a, off). (a[uint (cur * W + off) := neighbour_id (dx, dy, dz) (nk, nj, ni)], uint (off + 1)))"
    for nk nj ni
  proof -
    have w: "wrap_coord ni (int dx) = ni mod int dx" "wrap_coord nj (int dy) = nj mod int dy"
      "wrap_coord nk (int dz) = nk mod int dz"
      using dims by (simp_all add: wrap_coord_mod)
    have m: "int_to_uint (ni mod int dx) = nat (ni mod int dx)"
      "int_to_uint (nj mod int dy) = nat (nj mod int dy)"
      "int_to_uint (nk mod int dz) = nat (nk mod int dz)"
      using dims by (simp_all add: int_to_uint_mod)
    have "neighbour_id (dx, dy, dz) (nk, nj, ni) < nc"
      unfolding nc_def using dims(1-3) by (rule neighbour_id_bound)
    then have v: "Index3D_at (m_cell_indexer s) (nat (ni mod int dx)) (nat (nj mod int dy))
                    (nat (nk mod int dz)) = neighbour_id (dx, dy, dz) (nk, nj, ni)"
      using nc32 by (simp add: Index3D_at_def ci neighbour_id_def uint_id)
    show ?thesis
      by (rule ext) (simp add: adj_store_def Let_def w m v Index2D_at_def cai split: prod.split)
  qed
  have l1: "length [int x - int r..int x + int r] = 2 * r + 1" for x
  proof -
    have "int x + int r - (int x - int r) + 1 = int (2 * r + 1)" by simp
    then show ?thesis by (simp only: length_upto nat_int)
  qed
  have len_ts: "length ts = W"
    by (simp only: ts_def length_product l1 W_def power3_eq_cube mult.assoc)
  have loops: "fold (\<lambda>nk. fold (\<lambda>nj. fold (\<lambda>ni.
                   adj_store (m_cell_indexer s) (m_cell_adj_indexer s) (int dx) (int dy) (int dz) cur nk nj ni)
                     [int i - int r..int i + int r]) [int j - int r..int j + int r])
                [int k - int r..int k + int r] (a, 0) =
               (take (cur * W) a @ vs @ drop (cur * W + W) a, W)"
  proof -
    have "fold (\<lambda>nk. fold (\<lambda>nj. fold (\<lambda>ni.
                   adj_store (m_cell_indexer s) (m_cell_adj_indexer s) (int dx) (int dy) (int dz) cur nk nj ni)
                     [int i - int r..int i + int r]) [int j - int r..int j + int r])
                [int k - int r..int k + int r] =
          fold (\<lambda>(nk, nj, ni).
                   adj_store (m_cell_indexer s) (m_cell_adj_indexer s) (int dx) (int dy) (int dz) cur nk nj ni) ts"
      unfolding ts_def by (rule fold_product3)
    also have "(\<lambda>(nk, nj, ni).
                   adj_store (m_cell_indexer s) (m_cell_adj_indexer s) (int dx) (int dy) (int dz) cur nk nj ni) =
               (\<lambda>t (a, off). (a[uint (cur * W + off) := neighbour_id (dx, dy, dz) t], uint (off + 1)))"
      by (rule ext) (simp add: store split: prod.split)
    finally have "fold (\<lambda>nk. fold (\<lambda>nj. fold (\<lambda>ni.
                   adj_store (m_cell_indexer s) (m_cell_adj_indexer s) (int dx) (int dy) (int dz) cur nk nj ni)
                     [int i - int r..int i + int r]) [int j - int r..int j + int r])
                [int k - int r..int k + int r] (a, 0) =
          fold (\<lambda>t (a, off). (a[uint (cur * W + off) := neighbour_id (dx, dy, dz) t], uint (off + 1))) ts (a, 0)"
      by simp
    also have "\<dots> = (take (cur * W + 0) a @ map (neighbour_id (dx, dy, dz)) ts @
                       drop (cur * W + 0 + length ts) a, 0 + length ts)"
      by (rule write_seq) (use seg_le a32 len_ts in simp_all)
    finally show ?thesis by (simp add: vs_def len_ts)
  qed
  have i0: "Index2D_at (m_cell_adj_indexer s) 0 cur = cur * W"
    using seg_le a32 by (simp add: Index2D_at_def cai uint_id)
  have iW: "Index2D_at (m_cell_adj_indexer s) W cur = cur * W + W"
    using seg_le a32 by (simp add: Index2D_at_def cai uint_id)
  have lv: "length vs = W" by (simp add: vs_def len_ts)
  have "sort_range (take (cur * W) a @ vs @ drop (cur * W + W) a) (cur * W) (cur * W + length vs) =
        take (cur * W) a @ sort vs @ drop (cur * W + W) a"
    by (rule sort_range_segment) (use seg_le in simp)
  then have srt: "sort_range (take (cur * W) a @ vs @ drop (cur * W + W) a) (cur * W) (cur * W + W) =
        put_seg W cur (sort vs) a"
    by (simp add: lv put_seg_def)
  have "adj_cell s (int i) (int j) (int k) a = put_seg W cur (sort vs) a"
    by (simp add: adj_cell_def d Let_def tr tx cc r_def [symmetric] loops i0 iW srt)
  then show ?thesis
    by (simp add: W_def cur_def vs_def ts_def neighbour_ids_def r_def)
qed

lemma index3_inj:
  assumes "i < (w::nat)" "i' < w" "j < h" "j' < h"
    and "(k * h + j) * w + i = (k' * h + j') * w + i'"
  shows "i = i' \<and> j = j' \<and> k = k'"
proof -
  have 1: "k * h + j = k' * h + j' \<and> i = i'"
    using slot_index_neq [OF assms(1,2), of "k * h + j" "k' * h + j'"] assms(5) by blast
  then have "k = k' \<and> j = j'"
    using slot_index_neq [OF assms(3,4), of k k'] by blast
  with 1 show ?thesis by simp
qed

lemma cells_distinct_keys:
  "distinct (map (\<lambda>(k, j, i). (nat k * dy + nat j) * dx + nat i)
     (List.product [0..int dz - 1] (List.product [0..int dy - 1] [0..int dx - 1])))"
proof -
  let ?cells = "List.product [0..int dz - 1] (List.product [0..int dy - 1] [0..int dx - 1])"
  let ?key = "\<lambda>(k, j, i). (nat k * dy + nat j) * dx + nat i"
  have "distinct ?cells" by (intro distinct_product) simp_all
  moreover have "inj_on ?key (set ?cells)"
  proof (rule inj_onI)
    fix x y assume x: "x \<in> set ?cells" and y: "y \<in> set ?cells" and e: "?key x = ?key y"
    obtain k j i where xe: "x = (k, j, i)" by (cases x) auto
    obtain k' j' i' where ye: "y = (k', j', i')" by (cases y) auto
    have bx: "0 \<le> k" "0 \<le> j" "0 \<le> i" "nat i < dx" "nat j < dy"
      using x by (auto simp add: xe)
    have by': "0 \<le> k'" "0 \<le> j'" "0 \<le> i'" "nat i' < dx" "nat j' < dy"
      using y by (auto simp add: ye)
    have "nat i = nat i' \<and> nat j = nat j' \<and> nat k = nat k'"
      using e bx(4,5) by'(4,5) by (intro index3_inj [of _ dx _ _ dy]) (simp_all add: xe ye)
    then show "x = y" using bx by' by (simp add: xe ye eq_nat_nat_iff)
  qed
  ultimately show ?thesis by (simp add: distinct_map)
qed

lemma initializeCellAdj_segments:
  assumes rdy: "adj_ready s" and d: "m_dim s = (dx, dy, dz)"
    and c: "i < dx" "j < dy" "k < dz"
  shows "adj_list (initializeCellAdj s) ((k * dy + j) * dx + i) =
           sort (neighbour_ids (dx, dy, dz) (m_radius s) i j k)"
proof -
  define W where "W = (2 * m_radius s + 1) ^ 3"
  define L where "L = W * (dx * dy * dz)"
  let ?cells = "List.product [0..int dz - 1] (List.product [0..int dy - 1] [0..int dx - 1])"
  let ?key = "\<lambda>(k, j, i). (nat k * dy + nat j) * dx + nat i"
  let ?val = "\<lambda>(k, j, i). sort (neighbour_ids (dx, dy, dz) (m_radius s) (nat i) (nat j) (nat k))"
  let ?f = "\<lambda>(k, j, i). adj_cell s i j k"
  have dims: "dx < 2 ^ 31" "dy < 2 ^ 31" "dz < 2 ^ 31"
    using rdy by (simp_all add: adj_ready_def d)
  have cai: "i2_w (m_cell_adj_indexer s) = W" using rdy by (simp add: adj_ready_def d W_def)
  have la: "length (m_cell_adj s) = L" using rdy by (simp add: adj_ready_def d W_def L_def)
  have len_ids: "length (neighbour_ids (dx, dy, dz) (m_radius s) a b e) = W" for a b e
  proof -
    have "length [int x - int (m_radius s)..int x + int (m_radius s)] = 2 * m_radius s + 1" for x
    proof -
      have "int x + int (m_radius s) - (int x - int (m_radius s)) + 1 = int (2 * m_radius s + 1)"
        by simp
      then show ?thesis by (simp only: length_upto nat_int)
    qed
    then show ?thesis
      by (simp only: neighbour_ids_def length_map length_product W_def power3_eq_cube mult.assoc)
  qed
  have mem: "i' < dx \<and> j' < dy \<and> k' < dz \<and> 0 \<le> ki \<and> 0 \<le> ji \<and> 0 \<le> ii"
    if "(ki, ji, ii) \<in> set ?cells" "i' = nat ii" "j' = nat ji" "k' = nat ki" for ki ji ii i' j' k'
    using that by auto
  have loops: "m_cell_adj (initializeCellAdj s) = fold ?f ?cells (m_cell_adj s)"
    using dims by (simp add: initializeCellAdj_def d to_int_small fold_product3)
  have res: "length (fold ?f ?cells (m_cell_adj s)) = L \<and>
         (\<forall>x \<in> set ?cells. seg W (?key x) (fold ?f ?cells (m_cell_adj s)) = ?val x) \<and>
         (\<forall>c. c \<notin> ?key ` set ?cells \<longrightarrow>
            seg W c (fold ?f ?cells (m_cell_adj s)) = seg W c (m_cell_adj s))"
  proof (rule fold_put_seg)
    show "\<forall>x \<in> set ?cells. \<forall>a. length a = L \<longrightarrow> ?f x a = put_seg W (?key x) (?val x) a"
    proof (intro ballI allI impI)
      fix x and a :: "nat list" assume x: "x \<in> set ?cells" and a: "length a = L"
      obtain ki ji ii where xe: "x = (ki, ji, ii)" by (cases x) auto
      have m: "nat ii < dx" "nat ji < dy" "nat ki < dz" "0 \<le> ki" "0 \<le> ji" "0 \<le> ii"
        using mem [of ki ji ii] x by (simp_all add: xe)
      have "adj_cell s (int (nat ii)) (int (nat ji)) (int (nat ki)) a =
              put_seg ((2 * m_radius s + 1) ^ 3) ((nat ki * dy + nat ji) * dx + nat ii)
                (sort (neighbour_ids (dx, dy, dz) (m_radius s) (nat ii) (nat ji) (nat ki))) a"
        by (rule adj_cell_eq [OF rdy d m(1-3)]) (use a in \<open>simp add: L_def W_def\<close>)
      then show "?f x a = put_seg W (?key x) (?val x) a" using m by (simp add: xe W_def)
    qed
    show "\<forall>x \<in> set ?cells. ?key x * W + W \<le> L \<and> length (?val x) = W"
    proof (intro ballI)
      fix x assume x: "x \<in> set ?cells"
      obtain ki ji ii where xe: "x = (ki, ji, ii)" by (cases x) auto
      have m: "nat ii < dx" "nat ji < dy" "nat ki < dz"
        using mem [of ki ji ii] x by (simp_all add: xe)
      have "(nat ki * dy + nat ji) * dx + nat ii < dx * dy * dz" using m by (rule index3_bound)
      then have "((nat ki * dy + nat ji) * dx + nat ii + 1) * W \<le> (dx * dy * dz) * W"
        by (intro mult_le_mono1) simp
      then have "((nat ki * dy + nat ji) * dx + nat ii) * W + W \<le> L"
        by (simp add: L_def mult.commute)
      then show "?key x * W + W \<le> L \<and> length (?val x) = W" by (simp add: xe len_ids)
    qed
    show "distinct (map ?key ?cells)" by (rule cells_distinct_keys)
    show "length (m_cell_adj s) = L" by (rule la)
  qed
  have "(int k, int j, int i) \<in> set ?cells" using c by simp
  then have "seg W (?key (int k, int j, int i)) (fold ?f ?cells (m_cell_adj s)) =
             ?val (int k, int j, int i)"
    using res by blast
  then have "seg W ((k * dy + j) * dx + i) (m_cell_adj (initializeCellAdj s)) =
             sort (neighbour_ids (dx, dy, dz) (m_radius s) i j k)"
    by (simp add: loops)
  moreover have "m_cell_adj_indexer (initializeCellAdj s) = m_cell_adj_indexer s"
    by (simp add: initializeCellAdj_def split: prod.split)
  ultimately show ?thesis by (simp add: adj_list_def seg_def cai)
qed

lemma mem_of_adj_ready:
  assumes d: "m_dim s = (dx, dy, dz)"
    and dims: "1 \<le> dx" "1 \<le> dy" "1 \<le> dz" "dx < 2 ^ 31" "dy < 2 ^ 31" "dz < 2 ^ 31"
    and fits: "(2 * m_radius s + 1) ^ 3 * (dx * dy * dz) < 2 ^ 32"
  shows "adj_ready (mem_of sys s)"
proof -
  define r where "r = m_radius s"
  define q where "q = 2 * r + 1"
  have nc1: "1 \<le> dx * dy * dz" using dims(1-3) by simp
  have W32: "q ^ 3 < 2 ^ 32" using radius_small(2) [OF fits nc1] by (simp add: q_def r_def)
  have nc32: "dx * dy * dz < 2 ^ 32" using fits by (rule factor_less(2)) simp
  have cube: "q ^ 3 = q * q * q" by (simp only: power3_eq_cube)
  have q1: "1 \<le> q" by (simp add: q_def)
  have qq: "q * q < 2 ^ 32" using W32 q1 unfolding cube by (rule factor_less(1))
  have q32: "q < 2 ^ 32" using qq q1 by (rule factor_less(1))
  have u: "uint (uint (uint (r * 2 + 1) * uint (r * 2 + 1)) * uint (r * 2 + 1)) = q ^ 3"
  proof -
    have "r * 2 + 1 = q" by (simp add: q_def)
    then show ?thesis using q32 qq W32 by (simp add: uint_id cube)
  qed
  have ne: "Index3D_getNumElements \<lparr> i3_w = dx, i3_h = dy, i3_d = dz \<rparr> = dx * dy * dz"
    using nc32 by (simp add: Index3D_getNumElements_def uint_id)
  have f: "q ^ 3 * (dx * dy * dz) < 2 ^ 32" using fits by (simp add: q_def r_def)
  have ne2: "Index2D_getNumElements \<lparr> i2_w = q ^ 3, i2_h = dx * dy * dz \<rparr> = q ^ 3 * (dx * dy * dz)"
    using f by (simp add: Index2D_getNumElements_def uint_id)
  have md: "m_dim (mem_of sys s) = (dx, dy, dz)" by (simp add: mem_of_def d Let_def)
  have mr: "m_radius (mem_of sys s) = r" by (simp add: mem_of_def d Let_def r_def)
  have mci: "m_cell_indexer (mem_of sys s) = \<lparr> i3_w = dx, i3_h = dy, i3_d = dz \<rparr>"
    by (simp add: mem_of_def d Let_def)
  have "m_cell_adj_indexer (mem_of sys s) =
          \<lparr> i2_w = uint (uint (uint (r * 2 + 1) * uint (r * 2 + 1)) * uint (r * 2 + 1)),
            i2_h = Index3D_getNumElements \<lparr> i3_w = dx, i3_h = dy, i3_d = dz \<rparr> \<rparr>"
    by (simp add: mem_of_def d Let_def r_def)
  then have mcai: "m_cell_adj_indexer (mem_of sys s) = \<lparr> i2_w = q ^ 3, i2_h = dx * dy * dz \<rparr>"
    unfolding u ne .
  have "m_cell_adj (mem_of sys s) =
          replicate (Index2D_getNumElements
            \<lparr> i2_w = uint (uint (uint (r * 2 + 1) * uint (r * 2 + 1)) * uint (r * 2 + 1)),
              i2_h = Index3D_getNumElements \<lparr> i3_w = dx, i3_h = dy, i3_d = dz \<rparr> \<rparr>) 0"
    by (simp add: mem_of_def d Let_def r_def GPUArray_uint_def)
  then have "m_cell_adj (mem_of sys s) = replicate (q ^ 3 * (dx * dy * dz)) 0"
    unfolding u ne ne2 .
  then have mlen: "length (m_cell_adj (mem_of sys s)) = q ^ 3 * (dx * dy * dz)" by simp
  have q3: "(2 * r + 1) ^ 3 = q ^ 3" by (simp only: q_def)
  show ?thesis
    unfolding adj_ready_def md mr prod.case mci mcai mlen q3
    using dims f by (intro conjI refl)
qed

lemma mem_of_fields [simp]:
  "m_dim (mem_of sys s) = m_dim s" "m_radius (mem_of sys s) = m_radius s"
  by (simp_all add: mem_of_def Let_def split: prod.split)

text \<open>
  C3. For a grid whose dimensions are non-negative as \<^verbatim>\<open>int\<close> and whose adjacency table can
  be indexed in \<^verbatim>\<open>unsigned int\<close>, the table that \<^verbatim>\<open>initializeMemory\<close> builds through \<^verbatim>\<open>initializeCellAdj\<close>
  holds, for every cell \<open>(i, j, k)\<close>, the sorted list of the ids of all \<open>(2 radius + 1)\<^sup>3\<close>
  neighbours under floor-modulo wraparound: it has exactly that many entries, it is sorted
  ascending, every entry is a cell id below the number of cells, and as a multiset it is
  the list of neighbour ids, so an id reached from several offsets is repeated.
\<close>

theorem C3_adjacency_lists:
  assumes d: "m_dim s = (dx, dy, dz)"
    and int_dims: "dx < 2 ^ 31" "dy < 2 ^ 31" "dz < 2 ^ 31"
    and fits: "(2 * m_radius s + 1) ^ 3 * (dx * dy * dz) < 2 ^ 32"
    and c: "i < dx" "j < dy" "k < dz"
  shows "Index3D_at (m_cell_indexer (initializeMemory sys s)) i j k < dx * dy * dz \<and>
         adj_list (initializeMemory sys s) (Index3D_at (m_cell_indexer (initializeMemory sys s)) i j k) =
           sort (neighbour_ids (dx, dy, dz) (m_radius s) i j k) \<and>
         length (adj_list (initializeMemory sys s)
                   (Index3D_at (m_cell_indexer (initializeMemory sys s)) i j k)) =
           (2 * m_radius s + 1) ^ 3 \<and>
         sorted (adj_list (initializeMemory sys s)
                   (Index3D_at (m_cell_indexer (initializeMemory sys s)) i j k)) \<and>
         (\<forall>e \<in> set (adj_list (initializeMemory sys s)
                        (Index3D_at (m_cell_indexer (initializeMemory sys s)) i j k)).
            e < dx * dy * dz) \<and>
         mset (adj_list (initializeMemory sys s)
                 (Index3D_at (m_cell_indexer (initializeMemory sys s)) i j k)) =
           mset (neighbour_ids (dx, dy, dz) (m_radius s) i j k)"
proof -
  let ?s' = "initializeMemory sys s"
  let ?ids = "neighbour_ids (dx, dy, dz) (m_radius s) i j k"
  have dims: "1 \<le> dx" "1 \<le> dy" "1 \<le> dz" "dx < 2 ^ 31" "dy < 2 ^ 31" "dz < 2 ^ 31"
    using c int_dims by simp_all
  have rdy: "adj_ready (mem_of sys s)" using d dims fits by (rule mem_of_adj_ready)
  have d': "m_dim (mem_of sys s) = (dx, dy, dz)" using d by simp
  have nc32: "dx * dy * dz < 2 ^ 32" using fits by (rule factor_less(2)) simp
  have cl: "(k * dy + j) * dx + i < dx * dy * dz" using c by (rule index3_bound)
  have ci: "m_cell_indexer ?s' = \<lparr> i3_w = dx, i3_h = dy, i3_d = dz \<rparr>"
    unfolding initializeMemory_eq
    by (subst initializeCellAdj_frame) (simp add: mem_of_def d Let_def)
  have cid: "Index3D_at (m_cell_indexer ?s') i j k = (k * dy + j) * dx + i"
    using cl nc32 by (simp add: ci Index3D_at_def uint_id)
  have al: "adj_list ?s' ((k * dy + j) * dx + i) = sort ?ids"
    unfolding initializeMemory_eq
    using initializeCellAdj_segments [OF rdy d' c] by simp
  have len: "length ?ids = (2 * m_radius s + 1) ^ 3"
  proof -
    have "length [int x - int (m_radius s)..int x + int (m_radius s)] = 2 * m_radius s + 1" for x
    proof -
      have "int x + int (m_radius s) - (int x - int (m_radius s)) + 1 = int (2 * m_radius s + 1)"
        by simp
      then show ?thesis by (simp only: length_upto nat_int)
    qed
    then show ?thesis
      by (simp only: neighbour_ids_def length_map length_product power3_eq_cube mult.assoc)
  qed
  have valid: "\<forall>e \<in> set ?ids. e < dx * dy * dz"
  proof
    fix e assume "e \<in> set ?ids"
    then obtain t where "e = neighbour_id (dx, dy, dz) t" by (auto simp add: neighbour_ids_def)
    then show "e < dx * dy * dz"
      using neighbour_id_bound [OF dims(1-3)] by (cases t) auto
  qed
  show ?thesis
    unfolding cid al using cl len valid by simp
qed

text \<open>A grid of a single cell with one neighbour shell: the cell is its own neighbour 27
  times.\<close>

theorem C3_adjacency_lists_witness:
  "adj_list (initializeMemory (sys_of box_1 [origin]) cl_1)
     (Index3D_at (m_cell_indexer (initializeMemory (sys_of box_1 [origin]) cl_1)) 0 0 0) =
   replicate 27 0"
proof -
  have f: "m_dim cl_1 = (1, 1, 1)" "m_radius cl_1 = 1" by (simp_all add: cl_1_def)
  have z: "neighbour_id (1, 1, 1) = (\<lambda>t. 0)"
    by (rule ext) (simp add: neighbour_id_def split: prod.split)
  have "neighbour_ids (1, 1, 1) 1 0 0 0 = replicate 27 0"
    unfolding neighbour_ids_def z by (simp add: map_replicate_const)
  then have srt: "sort (neighbour_ids (1, 1, 1) (m_radius cl_1) 0 0 0) = replicate 27 0"
    by (simp add: f sorted_sort_id)
  have "adj_list (initializeMemory (sys_of box_1 [origin]) cl_1)
          (Index3D_at (m_cell_indexer (initializeMemory (sys_of box_1 [origin]) cl_1)) 0 0 0) =
        sort (neighbour_ids (1, 1, 1) (m_radius cl_1) 0 0 0)"
    by (rule C3_adjacency_lists [OF f(1), THEN conjunct2, THEN conjunct1]) (simp_all add: f(2))
  then show ?thesis by (simp only: srt)
qed

end
